theory Spec2Isabelle
  imports Main "HOL-Library.Word"
begin

section \<open>The lease store of coredhcp: data model\<close>

text \<open>
  The development embeds \<^verbatim>\<open>plugins/leasestorage/token.go\<close>,
  \<^verbatim>\<open>plugins/leasestorage/clientid.go\<close>, the \<^verbatim>\<open>Lease\<close> declaration and
  \<^verbatim>\<open>plugins/leasestorage/transient/leases.go\<close>.

  Go values that are pointers or slices are kept as such: a slice is a window on a backing
  array that lives in memory at an address, a \<^verbatim>\<open>*storage\<close> and a
  \<^verbatim>\<open>*LeaseStore\<close> are addresses. Memory is one record of typed heaps with a bump
  allocator. Every address holds a value of each type (Go has no dangling pointer), and
  \<open>next_addr\<close> separates the addresses handed out so far from the fresh ones.
\<close>

type_synonym addr = nat
type_synonym byte = "8 word"
type_synonym uint64 = "64 word"

text \<open>\<^verbatim>\<open>time.Time\<close> is an instant, in nanoseconds; \<^verbatim>\<open>Before\<close> is \<open><\<close>.\<close>

type_synonym time = int

text \<open>
  A slice header: \<open>NilSlice\<close> is Go's \<^verbatim>\<open>nil\<close> slice, \<open>Slice a off n\<close> the
  window of \<open>n\<close> elements that starts at index \<open>off\<close> of the array at address \<open>a\<close>.
  The capacity is left out: the store appends to local slices only, which are lists here.
\<close>

datatype slice = NilSlice | Slice addr nat nat

fun len :: "slice \<Rightarrow> nat" where
  "len NilSlice = 0"
| "len (Slice a off n) = n"

definition read_slice :: "(addr \<Rightarrow> 'a list) \<Rightarrow> slice \<Rightarrow> 'a list" where
  "read_slice m sl = (case sl of NilSlice \<Rightarrow> [] | Slice a off n \<Rightarrow> take n (drop off (m a)))"

record ClientID =
  Variant :: byte
  Data :: "byte list"

record IPNet =
  IP :: slice
  Mask :: slice

text \<open>
  \<open>Owner\<close> is a \<^verbatim>\<open>*plugins.Plugin\<close> and \<open>ExpireAction\<close> a function value; both
  are known by their identity only, \<open>None\<close> is \<^verbatim>\<open>nil\<close>. The field \<^verbatim>\<open>Expire\<close>
  is \<open>ExpireAt\<close> here, since \<open>Expire\<close> is the store's sweep.
\<close>

record Lease =
  Elements :: slice
  ExpireAt :: time
  Owner :: "addr option"
  ExpireAction :: "nat option"

text \<open>The embedded \<^verbatim>\<open>sync.Mutex\<close> of a record is the flag \<open>Mutex_locked\<close>.\<close>

record storage =
  revision :: uint64
  leases :: slice
  Mutex_locked :: bool

record tokenValue =
  tok_revision :: uint64
  tok_cid :: ClientID

record LeaseStore =
  records :: "ClientID \<rightharpoonup> addr"
  currentRev :: uint64

record memory =
  byte_arr :: "addr \<Rightarrow> byte list"
  ipnet_arr :: "addr \<Rightarrow> IPNet list"
  lease_arr :: "addr \<Rightarrow> Lease list"
  storage_obj :: "addr \<Rightarrow> storage"
  lstore_obj :: "addr \<Rightarrow> LeaseStore"
  next_addr :: addr

text \<open>
  What an operation does when it is called: it returns, it waits on a mutex that is held
  (\<open>Blocks\<close>; for ever, when nobody releases the mutex), or it panics.
\<close>

datatype 'a outcome = Returns 'a | Blocks | Panics

section \<open>token.go\<close>

text \<open>
  \<^verbatim>\<open>Token.Value\<close> is an \<^verbatim>\<open>interface{}\<close>: nil, a \<^verbatim>\<open>transient.tokenValue\<close>, or
  a value of some other dynamic type. \<^verbatim>\<open>Token.owner\<close> is a \<^verbatim>\<open>LeaseStore\<close>
  interface value: nil or a plugin instance, known by its address. A \<^verbatim>\<open>*Token\<close> is a
  \<open>Token option\<close>, \<open>None\<close> the nil pointer; a method that writes through the pointer
  returns the token as it is afterwards.
\<close>

datatype iface_value = NilValue | TokenValueV tokenValue | OtherValue nat

record Token =
  owner :: "addr option"
  Value :: iface_value

definition Valid :: "Token option \<Rightarrow> bool" where
  "Valid t = (case t of None \<Rightarrow> False | Some tk \<Rightarrow> owner tk \<noteq> None)"

text \<open>
  \<open>Invalidate\<close> returns the token and the \<^verbatim>\<open>ReleaseToken\<close> calls it made, each as the
  plugin called and the token passed. What a plugin does in \<^verbatim>\<open>ReleaseToken\<close> is its own;
  the transient store does nothing there.
\<close>

definition Invalidate :: "Token option \<Rightarrow> Token option \<times> (addr \<times> Token) list" where
  "Invalidate t =
     (case t of
        None \<Rightarrow> (None, [])
      | Some tk \<Rightarrow>
          (case owner tk of
             None \<Rightarrow> (Some tk, [])
           | Some p \<Rightarrow> (Some (tk\<lparr>owner := None\<rparr>), [(p, tk)])))"

definition IsOwnedBy :: "Token option \<Rightarrow> addr option \<Rightarrow> bool" where
  "IsOwnedBy t plugin =
     (case t of None \<Rightarrow> False | Some tk \<Rightarrow> plugin \<noteq> None \<and> owner tk = plugin)"

definition NewToken :: "addr option \<Rightarrow> iface_value \<Rightarrow> Token" where
  "NewToken own v =
     (case own of
        None \<Rightarrow> \<lparr>owner = None, Value = NilValue\<rparr>
      | Some p \<Rightarrow> \<lparr>owner = Some p, Value = v\<rparr>)"

subsection \<open>Errors\<close>

text \<open>
  An \<^verbatim>\<open>error\<close> is a pointer to an \<^verbatim>\<open>errorString\<close> (what \<^verbatim>\<open>errors.New\<close> makes)
  or to a \<^verbatim>\<open>TokenError\<close>. Go compares two of them by identity, so each value carries
  where it lives: a package-level variable, or an address allocated at run time. Errors are
  never written to after they are made, so equal identity means equal value and \<open>=\<close> is
  Go's \<^verbatim>\<open>==\<close>. A nil \<^verbatim>\<open>error\<close> is \<open>None\<close>.
\<close>

datatype ident = Static string | Dyn addr

datatype error =
  errorString ident string
| TokenError ident "error option" string

definition NewInvalidTokenError :: "ident \<Rightarrow> string \<Rightarrow> error" where
  "NewInvalidTokenError i msg = TokenError i None msg"

definition ErrToken :: error where
  "ErrToken = NewInvalidTokenError (Static ''ErrToken'') ''Token invalidated''"

definition ErrAlreadyInvalid :: error where
  "ErrAlreadyInvalid =
     NewInvalidTokenError (Static ''ErrAlreadyInvalid'') ''The given token was invalid for this plugin''"

definition ErrConcurrentUpdate :: error where
  "ErrConcurrentUpdate =
     NewInvalidTokenError (Static ''ErrConcurrentUpdate'') ''The underlying leases have changed''"

fun Unwrap :: "error \<Rightarrow> error option" where
  "Unwrap (errorString i s) = None"
| "Unwrap (TokenError i inner msg) = inner"

text \<open>\<^verbatim>\<open>func (tErr *TokenError) Is(e error) bool\<close>: the receiver is not looked at.\<close>

definition TokenError_Is :: "error \<Rightarrow> error option \<Rightarrow> bool" where
  "TokenError_Is tErr e = (e = Some ErrToken)"

text \<open>
  \<^verbatim>\<open>errors.Is\<close> of the Go standard library (1.13): walk the \<^verbatim>\<open>Unwrap\<close> chain of
  \<open>err\<close>; at each link answer true when the link is the target itself or has an
  \<^verbatim>\<open>Is\<close> method that accepts the target. Only a \<^verbatim>\<open>TokenError\<close> has \<^verbatim>\<open>Is\<close> and
  \<^verbatim>\<open>Unwrap\<close>.
\<close>

fun Is_chain :: "error \<Rightarrow> error \<Rightarrow> bool" where
  "Is_chain (errorString i s) target = (errorString i s = target)"
| "Is_chain (TokenError i inner msg) target =
     (TokenError i inner msg = target
      \<or> TokenError_Is (TokenError i inner msg) (Some target)
      \<or> (case inner of None \<Rightarrow> False | Some e \<Rightarrow> Is_chain e target))"

definition errors_Is :: "error option \<Rightarrow> error option \<Rightarrow> bool" where
  "errors_Is err target =
     (case target of
        None \<Rightarrow> err = None
      | Some t \<Rightarrow> (case err of None \<Rightarrow> False | Some e \<Rightarrow> Is_chain e t))"

text \<open>\<^verbatim>\<open>errors.New\<close> and \<^verbatim>\<open>&TokenError{inner: e}\<close> allocate.\<close>

definition errors_New :: "memory \<Rightarrow> string \<Rightarrow> error \<times> memory" where
  "errors_New h msg = (errorString (Dyn (next_addr h)) msg, h\<lparr>next_addr := Suc (next_addr h)\<rparr>)"

definition WrapWithInvalidToken :: "memory \<Rightarrow> error option \<Rightarrow> error \<times> memory" where
  "WrapWithInvalidToken h e =
     (TokenError (Dyn (next_addr h)) e [], h\<lparr>next_addr := Suc (next_addr h)\<rparr>)"

text \<open>
  \<open>InvalidateWithError\<close> returns the error, the token as it is afterwards, the
  \<^verbatim>\<open>ReleaseToken\<close> calls made, and memory.
\<close>

definition InvalidateWithError ::
  "memory \<Rightarrow> Token option \<Rightarrow> error option \<Rightarrow> error option \<times> Token option \<times> (addr \<times> Token) list \<times> memory" where
  "InvalidateWithError h t e =
     (let (t', calls) = Invalidate t in
      if errors_Is e (Some ErrToken) then (e, t', calls, h)
      else (let (w, h') = WrapWithInvalidToken h e in (Some w, t', calls, h')))"

section \<open>transient/leases.go\<close>

definition expireGrace :: int where
  "expireGrace = 60 * 1000000000"

text \<open>\<open>reset\<close> leaves the mutex as it is.\<close>

definition reset :: "storage \<Rightarrow> storage" where
  "reset s = s\<lparr>leases := NilSlice, revision := 0\<rparr>"

subsection \<open>getRevision\<close>

text \<open>\<^verbatim>\<open>atomic.AddUint64(&lstore.currentRev, delta)\<close>: add, store, and return the new value.\<close>

definition AddUint64_currentRev :: "memory \<Rightarrow> addr \<Rightarrow> uint64 \<Rightarrow> uint64 \<times> memory" where
  "AddUint64_currentRev h lstore delta =
     (let ls = lstore_obj h lstore; v = currentRev ls + delta
      in (v, h\<lparr>lstore_obj := (lstore_obj h)(lstore := ls\<lparr>currentRev := v\<rparr>)\<rparr>))"

text \<open>The loop \<^verbatim>\<open>for val == 0 { val = atomic.AddUint64(&lstore.currentRev, 1) }\<close>.\<close>

function getRevision_loop :: "memory \<Rightarrow> addr \<Rightarrow> uint64 \<Rightarrow> uint64 \<times> memory" where
  "getRevision_loop h lstore val =
     (if val = 0
      then (case AddUint64_currentRev h lstore 1 of (v, h') \<Rightarrow> getRevision_loop h' lstore v)
      else (val, h))"
  by pat_completeness auto
termination
  by (relation "measure (\<lambda>(h, lstore, val).
         if val \<noteq> 0 then 0 else if currentRev (lstore_obj h lstore) + 1 \<noteq> 0 then 1 else 2)")
     (auto simp: AddUint64_currentRev_def Let_def)

definition getRevision :: "memory \<Rightarrow> addr \<Rightarrow> uint64 \<times> memory" where
  "getRevision h lstore =
     (case AddUint64_currentRev h lstore 1 of (val, h') \<Rightarrow> getRevision_loop h' lstore val)"

subsection \<open>duplicateLease and Lookup\<close>

text \<open>\<^verbatim>\<open>make(net.IP, n)\<close>: a fresh array of \<open>n\<close> zero bytes.\<close>

definition make_bytes :: "memory \<Rightarrow> nat \<Rightarrow> slice \<times> memory" where
  "make_bytes h n =
     (Slice (next_addr h) 0 n,
      h\<lparr>byte_arr := (byte_arr h)(next_addr h := replicate n 0), next_addr := Suc (next_addr h)\<rparr>)"

text \<open>\<^verbatim>\<open>copy(dst, src)\<close> writes the first \<open>min (len dst) (len src)\<close> bytes of \<open>src\<close> into \<open>dst\<close>.\<close>

definition copy_bytes :: "memory \<Rightarrow> slice \<Rightarrow> slice \<Rightarrow> memory" where
  "copy_bytes h dst src =
     (case dst of
        NilSlice \<Rightarrow> h
      | Slice a off n \<Rightarrow>
          (let k = min n (len src);
               data = take k (read_slice (byte_arr h) src);
               old = byte_arr h a
           in h\<lparr>byte_arr := (byte_arr h)(a := take off old @ data @ drop (off + k) old)\<rparr>))"

text \<open>
  The loop of \<open>duplicateLease\<close> over \<^verbatim>\<open>l.Elements\<close>, and the loop of \<open>Lookup\<close> over
  \<^verbatim>\<open>recs.leases\<close>. Both read a source array that nothing writes to while they run (the
  copies go to fresh arrays), so the source is read once, and the copied elements are
  stored in the array made for them when the loop is over.
\<close>

fun dup_elements :: "memory \<Rightarrow> IPNet list \<Rightarrow> IPNet list \<times> memory" where
  "dup_elements h [] = ([], h)"
| "dup_elements h (e # es) =
     (case make_bytes h (len (IP e)) of (ip, h1) \<Rightarrow>
      case make_bytes h1 (len (Mask e)) of (mk, h2) \<Rightarrow>
      case dup_elements (copy_bytes (copy_bytes h2 ip (IP e)) mk (Mask e)) es of (ds, h3) \<Rightarrow>
        (\<lparr>IP = ip, Mask = mk\<rparr> # ds, h3))"

definition duplicateLease :: "memory \<Rightarrow> Lease \<Rightarrow> Lease \<times> memory" where
  "duplicateLease h l =
     (let src = read_slice (ipnet_arr h) (Elements l);
          a = next_addr h;
          n = len (Elements l);
          h1 = h\<lparr>ipnet_arr := (ipnet_arr h)(a := replicate n \<lparr>IP = NilSlice, Mask = NilSlice\<rparr>),
                 next_addr := Suc a\<rparr>
      in case dup_elements h1 src of (ds, h2) \<Rightarrow>
           (\<lparr>Elements = Slice a 0 n, ExpireAt = ExpireAt l, Owner = Owner l,
             ExpireAction = ExpireAction l\<rparr>,
            h2\<lparr>ipnet_arr := (ipnet_arr h2)(a := ds)\<rparr>))"

fun dup_leases :: "memory \<Rightarrow> Lease list \<Rightarrow> Lease list \<times> memory" where
  "dup_leases h [] = ([], h)"
| "dup_leases h (l # ls) =
     (case duplicateLease h l of (d, h1) \<Rightarrow>
      case dup_leases h1 ls of (ds, h2) \<Rightarrow> (d # ds, h2))"

definition zero_Lease :: Lease where
  "zero_Lease = \<lparr>Elements = NilSlice, ExpireAt = 0, Owner = None, ExpireAction = None\<rparr>"

text \<open>
  \<open>Lookup\<close> reads the map under the read lock, releases it, and then locks the record it
  found. Other goroutines run between the two: \<open>interf\<close> is what they did to memory by
  the time the record's mutex is taken (the identity when nothing else runs). The result
  is the leases, the token (returned by address in Go), the error, and memory.
\<close>

definition Lookup ::
  "(memory \<Rightarrow> memory) \<Rightarrow> memory \<Rightarrow> addr \<Rightarrow> ClientID \<Rightarrow> (slice \<times> Token \<times> error option \<times> memory) outcome" where
  "Lookup interf h lstore cid =
     (case records (lstore_obj h lstore) cid of
        None \<Rightarrow>
          Returns (NilSlice,
                   NewToken (Some lstore) (TokenValueV \<lparr>tok_revision = 0, tok_cid = cid\<rparr>),
                   None, h)
      | Some recs \<Rightarrow>
          (let h1 = interf h; st = storage_obj h1 recs in
           if Mutex_locked st then Blocks
           else
             (let src = read_slice (lease_arr h1) (leases st);
                  a = next_addr h1;
                  n = len (leases st);
                  h2 = h1\<lparr>lease_arr := (lease_arr h1)(a := replicate n zero_Lease),
                          next_addr := Suc a\<rparr>
              in case dup_leases h2 src of (ds, h3) \<Rightarrow>
                   Returns (Slice a 0 n,
                            NewToken (Some lstore)
                              (TokenValueV \<lparr>tok_revision = revision st, tok_cid = cid\<rparr>),
                            None,
                            h3\<lparr>lease_arr := (lease_arr h3)(a := ds)\<rparr>))))"

subsection \<open>Update\<close>

text \<open>The type assertion \<^verbatim>\<open>token.Value.(tokenValue)\<close>.\<close>

fun as_tokenValue :: "iface_value \<Rightarrow> tokenValue option" where
  "as_tokenValue (TokenValueV v) = Some v"
| "as_tokenValue NilValue = None"
| "as_tokenValue (OtherValue x) = None"

text \<open>\<open>ReleaseToken\<close> of the transient store does nothing.\<close>

definition ReleaseToken :: "memory \<Rightarrow> addr \<Rightarrow> Token option \<Rightarrow> memory" where
  "ReleaseToken h lstore t = h"

text \<open>
  \<open>Update\<close> returns the error, the token as it is afterwards, and memory. As in
  \<open>Lookup\<close>, \<open>interf\<close> is what other goroutines did between the release of the read
  lock and the moment \<open>Update\<close> holds the record's mutex (a record was found) or the
  write lock of the map (none was found). The path that returns before taking either
  returns the memory it read. The tokens that \<open>Update\<close> invalidates are owned by this
  store, whose \<open>ReleaseToken\<close> does nothing, so the calls are not kept.
\<close>

definition Update ::
  "(memory \<Rightarrow> memory) \<Rightarrow> memory \<Rightarrow> addr \<Rightarrow> ClientID \<Rightarrow> slice \<Rightarrow> Token option
     \<Rightarrow> (error option \<times> Token option \<times> memory) outcome" where
  "Update interf h lstore cid newLeases token =
     (case token of
        None \<Rightarrow> Returns (Some ErrAlreadyInvalid, token, h)
      | Some tk \<Rightarrow>
     if \<not> Valid token then Returns (Some ErrAlreadyInvalid, token, h)
     else if \<not> IsOwnedBy token (Some lstore) then
       (case errors_New h ''The token is for another plugin'' of
          (e, h') \<Rightarrow> Returns (Some e, token, h'))
     else
       (case as_tokenValue (Value tk) of
          None \<Rightarrow>
            (case errors_New h ''Corrupted token'' of (e, h') \<Rightarrow>
             case InvalidateWithError h' token (Some e) of
               (err, t', calls, h'') \<Rightarrow> Returns (err, t', h''))
        | Some tokVal \<Rightarrow>
            if tok_cid tokVal \<noteq> cid then
              (case errors_New h
                  ''The token was used for a different client than the one it was issued for'' of
                 (e, h') \<Rightarrow> Returns (Some e, token, h'))
            else
              (case records (lstore_obj h lstore) cid of
                 Some prev \<Rightarrow>
                   (let h1 = interf h; st = storage_obj h1 prev in
                    if Mutex_locked st then Blocks
                    else if revision st \<noteq> tok_revision tokVal then
                      (case InvalidateWithError h1 token (Some ErrConcurrentUpdate) of
                         (err, t', calls, h2) \<Rightarrow> Returns (err, t', h2))
                    else if len newLeases > 0 then
                      (case getRevision h1 lstore of (r, h2) \<Rightarrow>
                         Returns (None, fst (Invalidate token),
                           h2\<lparr>storage_obj := (storage_obj h2)
                                 (prev := st\<lparr>leases := newLeases, revision := r\<rparr>)\<rparr>))
                    else
                      Returns (None, fst (Invalidate token),
                        h1\<lparr>storage_obj := (storage_obj h1)(prev := reset st)\<rparr>))
               | None \<Rightarrow>
                   if tok_revision tokVal \<noteq> 0 then
                     (case InvalidateWithError h token (Some ErrConcurrentUpdate) of
                        (err, t', calls, h') \<Rightarrow> Returns (err, t', h'))
                   else
                     (let h1 = interf h in
                      case records (lstore_obj h1 lstore) cid of
                        Some other \<Rightarrow>
                          (case InvalidateWithError h1 token (Some ErrConcurrentUpdate) of
                             (err, t', calls, h2) \<Rightarrow> Returns (err, t', h2))
                      | None \<Rightarrow>
                          (case getRevision h1 lstore of (r, h2) \<Rightarrow>
                           let a = next_addr h2;
                               ls = lstore_obj h2 lstore
                           in Returns (None, fst (Invalidate token),
                                h2\<lparr>storage_obj := (storage_obj h2)
                                      (a := \<lparr>revision = r, leases = newLeases,
                                              Mutex_locked = False\<rparr>),
                                    lstore_obj := (lstore_obj h2)
                                      (lstore := ls\<lparr>records := (records ls)(cid \<mapsto> a)\<rparr>),
                                    next_addr := Suc a\<rparr>))))))"

subsection \<open>Expire\<close>

text \<open>
  The loop over \<^verbatim>\<open>v.leases\<close> of one record. \<open>all\<close> is the whole of \<^verbatim>\<open>v.leases\<close>,
  \<open>i\<close> the index and the list after it the leases from \<open>i\<close> on; \<open>cleanedLeases\<close> is
  the local slice (\<open>None\<close> is nil), \<open>n\<close> counts the leases found expired, and \<open>spawned\<close>
  lists the indices at which a goroutine was started for a callback.
  \<^verbatim>\<open>make([]Lease, i, c)\<close> panics when \<open>c < i\<close>.
\<close>

fun scan_leases ::
  "time \<Rightarrow> Lease list \<Rightarrow> nat \<Rightarrow> Lease list \<Rightarrow> Lease list option \<Rightarrow> nat \<Rightarrow> nat list
     \<Rightarrow> (Lease list option \<times> nat \<times> nat list) outcome" where
  "scan_leases cutoff all i [] cleanedLeases n spawned = Returns (cleanedLeases, n, spawned)"
| "scan_leases cutoff all i (lease # rest) cleanedLeases n spawned =
     (if ExpireAt lease < cutoff then
        (let spawned' = (if ExpireAction lease \<noteq> None then spawned @ [i] else spawned) in
         case cleanedLeases of
           None \<Rightarrow>
             if length all - length all div (i + 1) < i then Panics
             else scan_leases cutoff all (Suc i) rest (Some (take i all)) (Suc n) spawned'
         | Some c \<Rightarrow> scan_leases cutoff all (Suc i) rest (Some c) (Suc n) spawned')
      else
        (case cleanedLeases of
           None \<Rightarrow> scan_leases cutoff all (Suc i) rest None n spawned
         | Some c \<Rightarrow> scan_leases cutoff all (Suc i) rest (Some (c @ [lease])) n spawned))"

text \<open>
  What a callback goroutine does. The function literal
  \<^verbatim>\<open>func() { lease.ExpireAction(lease.Elements, lease.Expire); callbacks.Done() }\<close>
  captures the variable \<^verbatim>\<open>lease\<close> of the \<^verbatim>\<open>for i, lease := range v.leases\<close>
  statement. The module is at \<^verbatim>\<open>go 1.13\<close>, where a range statement has one such variable
  for all its iterations, assigned anew at the start of each. The goroutine reads it when
  the scheduler runs it: \<open>delay\<close> is the number of further iterations that have begun by
  then, so the goroutine started at index \<open>i\<close> sees the lease at index \<open>i + delay\<close>, or
  the last one when the loop is over. Calling a nil function panics, and a panic in a
  goroutine ends the program: \<open>Expire\<close>, which waits for its goroutines, does not return.
\<close>

datatype invocation = Invoke nat slice time

definition run_callback :: "Lease list \<Rightarrow> (nat \<Rightarrow> nat) \<Rightarrow> nat \<Rightarrow> invocation outcome" where
  "run_callback all delay i =
     (let lease = all ! (min (i + delay i) (length all - 1)) in
      case ExpireAction lease of
        None \<Rightarrow> Panics
      | Some f \<Rightarrow> Returns (Invoke f (Elements lease) (ExpireAt lease)))"

text \<open>
  The goroutines started for one record, listed by the index at which each was started:
  the calls they make, unless one of them panics.
\<close>

fun run_callbacks :: "Lease list \<Rightarrow> (nat \<Rightarrow> nat) \<Rightarrow> nat list \<Rightarrow> invocation list outcome" where
  "run_callbacks all delay [] = Returns []"
| "run_callbacks all delay (i # rest) =
     (case run_callback all delay i of
        Returns c \<Rightarrow>
          (case run_callbacks all delay rest of
             Returns cs \<Rightarrow> Returns (c # cs)
           | Blocks \<Rightarrow> Blocks
           | Panics \<Rightarrow> Panics)
      | Blocks \<Rightarrow> Blocks
      | Panics \<Rightarrow> Panics)"

text \<open>
  The state of the sweep: memory, the count \<open>cleaned\<close>, the candidates for \<open>cleanup\<close>,
  and the calls that the callback goroutines made (all have finished when \<open>Expire\<close>
  returns, which waits for them). \<open>visited\<close> is not in the source: it lists the keys whose record the
  loop has locked, to say what a sweep reached.
\<close>

record sweep_state =
  mem :: memory
  cleaned :: int
  cleanupCandidates :: "ClientID list"
  callbacks :: "invocation list"
  visited :: "ClientID list"

text \<open>
  The loop \<^verbatim>\<open>for cid, v := range lstore.records\<close>. The keys come in the order the
  runtime picks; a key that is not in the map is passed over. \<open>sched\<close> gives, for a key,
  the delays of its callback goroutines. \<^verbatim>\<open>v.leases = cleanedLeases\<close> stores the local
  slice: its elements are in a fresh array.
\<close>

fun sweep ::
  "time \<Rightarrow> (ClientID \<Rightarrow> nat \<Rightarrow> nat) \<Rightarrow> int \<Rightarrow> addr \<Rightarrow> ClientID list \<Rightarrow> sweep_state
     \<Rightarrow> sweep_state outcome" where
  "sweep cutoff sched workAmount lstore [] s = Returns s"
| "sweep cutoff sched workAmount lstore (cid # rest) s =
     (case records (lstore_obj (mem s) lstore) cid of
        None \<Rightarrow> sweep cutoff sched workAmount lstore rest s
      | Some p \<Rightarrow>
          (let h = mem s; v = storage_obj h p in
           if Mutex_locked v then Blocks
           else if revision v = 0 then
             sweep cutoff sched workAmount lstore rest
               (s\<lparr>cleanupCandidates := cleanupCandidates s @ [cid], visited := visited s @ [cid]\<rparr>)
           else
             (let all = read_slice (lease_arr h) (leases v) in
              case scan_leases cutoff all 0 all None 0 [] of
                Panics \<Rightarrow> Panics
              | Blocks \<Rightarrow> Blocks
              | Returns (cleanedLeases, n, spawned) \<Rightarrow>
                  (case run_callbacks all (sched cid) spawned of
                     Panics \<Rightarrow> Panics
                   | Blocks \<Rightarrow> Blocks
                   | Returns invoked \<Rightarrow>
                  (let s1 = s\<lparr>cleaned := cleaned s + int n,
                              callbacks := callbacks s @ invoked,
                              visited := visited s @ [cid]\<rparr>;
                       s2 =
                         (case cleanedLeases of
                            None \<Rightarrow> s1
                          | Some c \<Rightarrow>
                              if length c > 0 then
                                (let a = next_addr h;
                                     h1 = h\<lparr>lease_arr := (lease_arr h)(a := c), next_addr := Suc a\<rparr>
                                 in case getRevision h1 lstore of (r, h2) \<Rightarrow>
                                      s1\<lparr>mem := h2\<lparr>storage_obj := (storage_obj h2)
                                             (p := v\<lparr>leases := Slice a 0 (length c), revision := r\<rparr>)\<rparr>\<rparr>)
                              else
                                s1\<lparr>mem := h\<lparr>storage_obj := (storage_obj h)(p := reset v)\<rparr>,
                                   cleanupCandidates := cleanupCandidates s1 @ [cid]\<rparr>)
                   in if cleaned s2 \<ge> workAmount then Returns s2
                      else sweep cutoff sched workAmount lstore rest s2)))))"

text \<open>
  \<open>Expire\<close> at the instant \<open>now\<close>. The candidates of the state it returns are what the
  goroutine \<^verbatim>\<open>go lstore.cleanup(cleanupCandidates, deferred)\<close> is started with.
\<close>

definition Expire ::
  "time \<Rightarrow> (ClientID \<Rightarrow> nat \<Rightarrow> nat) \<Rightarrow> ClientID list \<Rightarrow> memory \<Rightarrow> addr \<Rightarrow> int
     \<Rightarrow> sweep_state outcome" where
  "Expire now sched order h lstore workAmount =
     (let cutoff = now - expireGrace in
      sweep cutoff sched workAmount lstore order
        \<lparr>mem = h, cleaned = 0, cleanupCandidates = [], callbacks = [], visited = []\<rparr>)"

subsection \<open>cleanup\<close>

text \<open>
  \<open>cleanup\<close> also returns what it did to the locks and to the map, in order: taking and
  releasing the write lock of the map, locking and unlocking a record, deleting a key
  (with the record it had), and the final \<^verbatim>\<open>wg.Done()\<close>.
\<close>

datatype lock_event =
  KeyLock | KeyUnlock | RecLock addr | RecUnlock addr | MapDelete ClientID addr | WgDone

fun cleanup_loop ::
  "addr \<Rightarrow> ClientID list \<Rightarrow> memory \<Rightarrow> lock_event list \<Rightarrow> (memory \<times> lock_event list) outcome" where
  "cleanup_loop lstore [] h evs = Returns (h, evs)"
| "cleanup_loop lstore (c # cs) h evs =
     (case records (lstore_obj h lstore) c of
        None \<Rightarrow> cleanup_loop lstore cs h evs
      | Some p \<Rightarrow>
          (let stored = storage_obj h p in
           if Mutex_locked stored then Blocks
           else if revision stored \<noteq> 0 then
             cleanup_loop lstore cs h (evs @ [RecLock p, RecUnlock p])
           else
             (let ls = lstore_obj h lstore in
              cleanup_loop lstore cs
                (h\<lparr>storage_obj := (storage_obj h)(p := stored\<lparr>Mutex_locked := True\<rparr>),
                   lstore_obj := (lstore_obj h)(lstore := ls\<lparr>records := (records ls)(c := None)\<rparr>)\<rparr>)
                (evs @ [RecLock p, MapDelete c p]))))"

definition cleanup :: "memory \<Rightarrow> addr \<Rightarrow> ClientID list \<Rightarrow> (memory \<times> lock_event list) outcome" where
  "cleanup h lstore candidates =
     (case cleanup_loop lstore candidates h [KeyLock] of
        Returns (h', evs) \<Rightarrow> Returns (h', evs @ [KeyUnlock, WgDone])
      | Blocks \<Rightarrow> Blocks
      | Panics \<Rightarrow> Panics)"

subsection \<open>New\<close>

text \<open>\<open>New\<close> makes the store; the ticker goroutine it starts calls \<open>Expire\<close> now and then.\<close>

definition New :: "memory \<Rightarrow> addr \<times> memory" where
  "New h =
     (next_addr h,
      h\<lparr>lstore_obj := (lstore_obj h)(next_addr h := \<lparr>records = Map.empty, currentRev = 1\<rparr>),
        next_addr := Suc (next_addr h)\<rparr>)"

section \<open>Well-formed stores\<close>

text \<open>
  Every record of the map is made by \<^verbatim>\<open>&storage{...}\<close> in \<open>Update\<close>: each key has a
  record of its own, at an address that has been handed out.
\<close>

definition own_records :: "memory \<Rightarrow> addr \<Rightarrow> bool" where
  "own_records h lstore =
     (inj_on (records (lstore_obj h lstore)) (dom (records (lstore_obj h lstore)))
      \<and> (\<forall>c p. records (lstore_obj h lstore) c = Some p \<longrightarrow> p < next_addr h))"

text \<open>
  Reading a trace of \<open>cleanup\<close>: \<open>locks_after\<close> gives whether the write lock of the map
  is held and which records are locked after the events, and \<open>deletes_guarded\<close> says that
  every deletion of a key in the trace happens while the write lock of the map and the
  mutex of the key's record are both held.
\<close>

fun locks_after :: "bool \<times> addr set \<Rightarrow> lock_event list \<Rightarrow> bool \<times> addr set" where
  "locks_after st [] = st"
| "locks_after (k, held) (KeyLock # es) = locks_after (True, held) es"
| "locks_after (k, held) (KeyUnlock # es) = locks_after (False, held) es"
| "locks_after (k, held) (RecLock p # es) = locks_after (k, insert p held) es"
| "locks_after (k, held) (RecUnlock p # es) = locks_after (k, held - {p}) es"
| "locks_after (k, held) (MapDelete c p # es) = locks_after (k, held) es"
| "locks_after (k, held) (WgDone # es) = locks_after (k, held) es"

fun deletes_guarded :: "bool \<times> addr set \<Rightarrow> lock_event list \<Rightarrow> bool" where
  "deletes_guarded st [] = True"
| "deletes_guarded (k, held) (MapDelete c p # es) =
     (k \<and> p \<in> held \<and> deletes_guarded (k, held) es)"
| "deletes_guarded st (e # es) = deletes_guarded (locks_after st [e]) es"

text \<open>No record of the map is locked: nobody is in the middle of an operation on one.\<close>

definition records_unlocked :: "memory \<Rightarrow> addr \<Rightarrow> bool" where
  "records_unlocked h lstore =
     (\<forall>c p. records (lstore_obj h lstore) c = Some p \<longrightarrow> \<not> Mutex_locked (storage_obj h p))"

text \<open>
  The leases of a list that \<open>Expire\<close> keeps: those whose expiry is not before the cutoff,
  in their order. \<open>spawned_at\<close> lists the indices of the leases that have expired and
  have a callback.
\<close>

definition kept_leases :: "time \<Rightarrow> Lease list \<Rightarrow> Lease list" where
  "kept_leases cutoff xs = filter (\<lambda>l. \<not> ExpireAt l < cutoff) xs"

definition spawned_at :: "time \<Rightarrow> Lease list \<Rightarrow> nat list" where
  "spawned_at cutoff xs =
     filter (\<lambda>j. ExpireAt (xs ! j) < cutoff \<and> ExpireAction (xs ! j) \<noteq> None) [0..<length xs]"

text \<open>The leases that the record at an address holds.\<close>

definition record_leases :: "memory \<Rightarrow> addr \<Rightarrow> Lease list" where
  "record_leases h p = read_slice (lease_arr h) (leases (storage_obj h p))"


text \<open>
  No callback goroutine started for the leases \<open>all\<close> calls a nil function: the lease
  that each of them finds in the loop variable when it runs has a callback. \<open>invocations\<close>
  are the calls that the goroutines make then.
\<close>

definition callbacks_safe :: "time \<Rightarrow> (nat \<Rightarrow> nat) \<Rightarrow> Lease list \<Rightarrow> bool" where
  "callbacks_safe cutoff delay all =
     (\<forall>i \<in> set (spawned_at cutoff all).
        ExpireAction (all ! (min (i + delay i) (length all - 1))) \<noteq> None)"

definition invocations :: "Lease list \<Rightarrow> (nat \<Rightarrow> nat) \<Rightarrow> nat list \<Rightarrow> invocation list" where
  "invocations all delay spawned =
     (case run_callbacks all delay spawned of
        Returns cs \<Rightarrow> cs
      | Blocks \<Rightarrow> []
      | Panics \<Rightarrow> [])"

text \<open>
  What one round of the loop of \<open>sweep\<close> does to the state, for a key whose record is at
  \<open>p\<close> and is not locked, when no callback goroutine panics: the body of the loop with
  the scan of the leases worked out.
\<close>

definition visit ::
  "time \<Rightarrow> (nat \<Rightarrow> nat) \<Rightarrow> addr \<Rightarrow> ClientID \<Rightarrow> addr \<Rightarrow> sweep_state \<Rightarrow> sweep_state" where
  "visit cutoff delay lstore cid p s =
     (let h = mem s; v = storage_obj h p;
          all = record_leases h p;
          kept = kept_leases cutoff all;
          a = next_addr h;
          ls = lstore_obj h lstore;
          r = (if currentRev ls + 1 = 0 then 1 else currentRev ls + 1);
          s1 = s\<lparr>cleaned := cleaned s + int (length all - length kept),
                 callbacks := callbacks s @ invocations all delay (spawned_at cutoff all),
                 visited := visited s @ [cid]\<rparr>
      in if revision v = 0 then
           s\<lparr>cleanupCandidates := cleanupCandidates s @ [cid], visited := visited s @ [cid]\<rparr>
         else if length kept = length all then s1
         else if kept \<noteq> [] then
           s1\<lparr>mem := h\<lparr>lease_arr := (lease_arr h)(a := kept), next_addr := Suc a,
                        lstore_obj := (lstore_obj h)(lstore := ls\<lparr>currentRev := r\<rparr>),
                        storage_obj := (storage_obj h)
                          (p := v\<lparr>leases := Slice a 0 (length kept), revision := r\<rparr>)\<rparr>\<rparr>
         else
           s1\<lparr>mem := h\<lparr>storage_obj := (storage_obj h)(p := reset v)\<rparr>,
              cleanupCandidates := cleanupCandidates s @ [cid]\<rparr>)"




text \<open>No record of the map has a revision beyond the counter of the store.\<close>

definition revisions_bounded :: "memory \<Rightarrow> addr \<Rightarrow> bool" where
  "revisions_bounded h lstore =
     (\<forall>c p. records (lstore_obj h lstore) c = Some p
        \<longrightarrow> revision (storage_obj h p) \<le> currentRev (lstore_obj h lstore))"















text \<open>
  The revision that a \<open>Lookup\<close> of a key captures: that of the key's record, 0 when the
  key has none.
\<close>

definition observed_revision :: "memory \<Rightarrow> addr \<Rightarrow> ClientID \<Rightarrow> uint64" where
  "observed_revision h lstore c =
     (case records (lstore_obj h lstore) c of
        None \<Rightarrow> 0
      | Some p \<Rightarrow> revision (storage_obj h p))"

text \<open>No two records of the map have the same revision, unless it is 0.\<close>

definition revisions_distinct :: "memory \<Rightarrow> addr \<Rightarrow> bool" where
  "revisions_distinct h lstore =
     (\<forall>c c' p p'. records (lstore_obj h lstore) c = Some p
        \<and> records (lstore_obj h lstore) c' = Some p' \<and> c \<noteq> c'
        \<and> revision (storage_obj h p) \<noteq> 0
        \<longrightarrow> revision (storage_obj h p) \<noteq> revision (storage_obj h p'))"

definition store_inv :: "memory \<Rightarrow> addr \<Rightarrow> bool" where
  "store_inv h lstore =
     (own_records h lstore \<and> revisions_bounded h lstore \<and> revisions_distinct h lstore)"

text \<open>
  From \<open>h\<close> to \<open>h'\<close> the counter has not gone back, and the revision that a \<open>Lookup\<close>
  captures for a key is what it was, or 0, or beyond the counter of \<open>h\<close>.
\<close>

definition rev_step :: "addr \<Rightarrow> memory \<Rightarrow> memory \<Rightarrow> bool" where
  "rev_step lstore h h' =
     (currentRev (lstore_obj h lstore) \<le> currentRev (lstore_obj h' lstore)
      \<and> (\<forall>c. observed_revision h' lstore c = observed_revision h lstore c
             \<or> observed_revision h' lstore c = 0
             \<or> currentRev (lstore_obj h lstore) < observed_revision h' lstore c))"

text \<open>
  The operations on a store, one after the other, none running while another is under
  way. \<open>getRevision_calls\<close> bounds the number of calls of \<open>getRevision\<close> that they make.
\<close>

datatype operation =
  DoLookup ClientID
| DoUpdate ClientID slice "Token option"
| DoExpire time "ClientID \<Rightarrow> nat \<Rightarrow> nat" "ClientID list" int
| DoCleanup "ClientID list"

fun apply_op :: "addr \<Rightarrow> operation \<Rightarrow> memory \<Rightarrow> memory outcome" where
  "apply_op lstore (DoLookup c) h =
     (case Lookup id h lstore c of
        Returns (out, tok, err, h') \<Rightarrow> Returns h' | Blocks \<Rightarrow> Blocks | Panics \<Rightarrow> Panics)"
| "apply_op lstore (DoUpdate c newLeases token) h =
     (case Update id h lstore c newLeases token of
        Returns (err, t', h') \<Rightarrow> Returns h' | Blocks \<Rightarrow> Blocks | Panics \<Rightarrow> Panics)"
| "apply_op lstore (DoExpire now sched order workAmount) h =
     (case Expire now sched order h lstore workAmount of
        Returns s' \<Rightarrow> Returns (mem s') | Blocks \<Rightarrow> Blocks | Panics \<Rightarrow> Panics)"
| "apply_op lstore (DoCleanup candidates) h =
     (case cleanup h lstore candidates of
        Returns (h', evs) \<Rightarrow> Returns h' | Blocks \<Rightarrow> Blocks | Panics \<Rightarrow> Panics)"

fun run :: "addr \<Rightarrow> operation list \<Rightarrow> memory \<Rightarrow> memory outcome" where
  "run lstore [] h = Returns h"
| "run lstore (x # xs) h =
     (case apply_op lstore x h of
        Returns h' \<Rightarrow> run lstore xs h' | Blocks \<Rightarrow> Blocks | Panics \<Rightarrow> Panics)"

fun getRevision_calls :: "operation \<Rightarrow> nat" where
  "getRevision_calls (DoLookup c) = 0"
| "getRevision_calls (DoUpdate c newLeases token) = 1"
| "getRevision_calls (DoExpire now sched order workAmount) = length order"
| "getRevision_calls (DoCleanup candidates) = 0"

text \<open>From \<open>h\<close> to \<open>h'\<close> neither a store nor a record has changed; memory may have been allocated.\<close>

definition store_frame :: "memory \<Rightarrow> memory \<Rightarrow> bool" where
  "store_frame h h' =
     (storage_obj h' = storage_obj h \<and> lstore_obj h' = lstore_obj h \<and> next_addr h \<le> next_addr h')"

section \<open>Example states\<close>

definition zero_storage :: storage where
  "zero_storage = \<lparr>revision = 0, leases = NilSlice, Mutex_locked = False\<rparr>"

definition zero_memory :: memory where
  "zero_memory =
     \<lparr>byte_arr = (\<lambda>a. []), ipnet_arr = (\<lambda>a. []), lease_arr = (\<lambda>a. []),
      storage_obj = (\<lambda>a. zero_storage),
      lstore_obj = (\<lambda>a. \<lparr>records = Map.empty, currentRev = 0\<rparr>),
      next_addr = 0\<rparr>"

definition ex_cid :: ClientID where
  "ex_cid = \<lparr>Variant = 0, Data = [0x52, 0x54, 0, 0x12, 0x34, 0x56]\<rparr>"

definition ex_cid2 :: ClientID where
  "ex_cid2 = \<lparr>Variant = 2, Data = [0, 1]\<rparr>"

definition ex_now :: time where
  "ex_now = 1000000000000"

text \<open>
  Three leases: the first ran out five minutes ago, the second has an hour left, the third
  ran out ten minutes ago.
\<close>

definition ex_lease1 :: Lease where
  "ex_lease1 = \<lparr>Elements = Slice 3 0 1, ExpireAt = ex_now - 300000000000, Owner = None,
                ExpireAction = Some 1\<rparr>"

definition ex_lease2 :: Lease where
  "ex_lease2 = \<lparr>Elements = Slice 4 0 1, ExpireAt = ex_now + 3600000000000, Owner = None,
                ExpireAction = Some 2\<rparr>"

definition ex_lease3 :: Lease where
  "ex_lease3 = \<lparr>Elements = Slice 5 0 1, ExpireAt = ex_now - 600000000000, Owner = None,
                ExpireAction = Some 3\<rparr>"

text \<open>
  A store at address 0 with one record, for \<open>ex_cid\<close>, at revision 5, holding the three
  leases: 10.0.0.1/32, 10.0.0.2/32 and 10.0.0.3/32.
\<close>

definition ex_store :: memory where
  "ex_store =
     \<lparr>byte_arr = (\<lambda>a. [])(6 := [10, 0, 0, 1], 7 := [10, 0, 0, 2], 8 := [10, 0, 0, 3],
                            9 := [255, 255, 255, 255]),
      ipnet_arr = (\<lambda>a. [])(3 := [\<lparr>IP = Slice 6 0 4, Mask = Slice 9 0 4\<rparr>],
                             4 := [\<lparr>IP = Slice 7 0 4, Mask = Slice 9 0 4\<rparr>],
                             5 := [\<lparr>IP = Slice 8 0 4, Mask = Slice 9 0 4\<rparr>]),
      lease_arr = (\<lambda>a. [])(2 := [ex_lease1, ex_lease2, ex_lease3]),
      storage_obj = (\<lambda>a. zero_storage)
                      (10 := \<lparr>revision = 5, leases = Slice 2 0 3, Mutex_locked = False\<rparr>),
      lstore_obj = (\<lambda>a. \<lparr>records = Map.empty, currentRev = 0\<rparr>)
                      (0 := \<lparr>records = [ex_cid \<mapsto> 10], currentRev = 5\<rparr>),
      next_addr = 11\<rparr>"

text \<open>The token that the store at address 0 issues for a key at a revision.\<close>

definition ex_token :: "uint64 \<Rightarrow> ClientID \<Rightarrow> Token" where
  "ex_token r c = \<lparr>owner = Some 0, Value = TokenValueV \<lparr>tok_revision = r, tok_cid = c\<rparr>\<rparr>"


text \<open>
  The store of \<open>ex_store\<close> with a second record, for \<open>ex_cid2\<close>, that has been emptied:
  no leases, revision 0.
\<close>

definition ex_store2 :: memory where
  "ex_store2 =
     ex_store\<lparr>storage_obj := (storage_obj ex_store)(11 := zero_storage),
              lstore_obj := (lstore_obj ex_store)
                (0 := \<lparr>records = [ex_cid \<mapsto> 10, ex_cid2 \<mapsto> 11], currentRev = 5\<rparr>),
              next_addr := 12\<rparr>"

text \<open>
  The store of \<open>ex_store\<close> when its counter has reached the last value of a
  \<^verbatim>\<open>uint64\<close>: the record of \<open>ex_cid\<close> still has the revision 5 it got long ago.
\<close>

definition ex_store_wrapping :: memory where
  "ex_store_wrapping =
     ex_store\<lparr>lstore_obj := (lstore_obj ex_store)
                (0 := \<lparr>records = [ex_cid \<mapsto> 10], currentRev = 0xFFFFFFFFFFFFFFFF\<rparr>)\<rparr>"

text \<open>Every callback goroutine runs before the loop goes on.\<close>

definition ex_prompt :: "ClientID \<Rightarrow> nat \<Rightarrow> nat" where
  "ex_prompt c i = 0"

text \<open>
  No callback goroutine runs before the loop over the leases of the record is over: they
  run while \<open>Expire\<close> waits for them.
\<close>

definition ex_late :: "ClientID \<Rightarrow> nat \<Rightarrow> nat" where
  "ex_late c i = 2"

text \<open>The store of \<open>ex_store\<close> where the third lease has no callback.\<close>

definition ex_store_nil :: memory where
  "ex_store_nil =
     ex_store\<lparr>lease_arr := (lease_arr ex_store)
                (2 := [ex_lease1, ex_lease2, ex_lease3\<lparr>ExpireAction := None\<rparr>])\<rparr>"

text \<open>
  A client of the store at address 0 looks \<open>ex_cid\<close> up, commits one lease for it with the
  token it got, and looks it up again.
\<close>

definition ex_ops :: "operation list" where
  "ex_ops =
     [DoLookup ex_cid,
      DoUpdate ex_cid (Slice 2 1 1) (Some (ex_token 5 ex_cid)),
      DoLookup ex_cid]"

text \<open>
  Five commits for \<open>ex_cid2\<close>, each with the token of the revision that the one before
  left: the first creates the record.
\<close>

definition ex_ops_wrapping :: "operation list" where
  "ex_ops_wrapping =
     [DoUpdate ex_cid2 (Slice 2 1 1) (Some (ex_token 0 ex_cid2)),
      DoUpdate ex_cid2 (Slice 2 1 1) (Some (ex_token 1 ex_cid2)),
      DoUpdate ex_cid2 (Slice 2 1 1) (Some (ex_token 2 ex_cid2)),
      DoUpdate ex_cid2 (Slice 2 1 1) (Some (ex_token 3 ex_cid2)),
      DoUpdate ex_cid2 (Slice 2 1 1) (Some (ex_token 4 ex_cid2))]"

section \<open>Lemmas\<close>

lemma ex_cids_differ: "ex_cid \<noteq> ex_cid2" "ex_cid2 \<noteq> ex_cid"
  by (simp_all add: ex_cid_def ex_cid2_def)

lemma ex_store_simps:
  "lstore_obj ex_store 0 = \<lparr>records = [ex_cid \<mapsto> 10], currentRev = 5\<rparr>"
  "storage_obj ex_store 10 = \<lparr>revision = 5, leases = Slice 2 0 3, Mutex_locked = False\<rparr>"
  "next_addr ex_store = 11"
  "lease_arr ex_store 2 = [ex_lease1, ex_lease2, ex_lease3]"
  by (simp_all add: ex_store_def)

lemma ex_store_own: "own_records ex_store 0"
  by (simp add: own_records_def ex_store_simps)

subsection \<open>getRevision\<close>

lemma getRevision_eq:
  "getRevision h lstore =
     (let c = currentRev (lstore_obj h lstore); r = (if c + 1 = 0 then 1 else c + 1)
      in (r, h\<lparr>lstore_obj := (lstore_obj h)(lstore := (lstore_obj h lstore)\<lparr>currentRev := r\<rparr>)\<rparr>))"
  by (simp add: getRevision_def AddUint64_currentRev_def Let_def)

lemma getRevision_nonzero: "fst (getRevision h lstore) \<noteq> 0"
  by (simp add: getRevision_eq Let_def)

subsection \<open>Token errors\<close>

lemma errors_Is_ErrToken_TokenError:
  "errors_Is (Some (TokenError i inner msg)) (Some ErrToken)"
  by (simp add: errors_Is_def TokenError_Is_def)

lemma errors_Is_ErrToken_errorString:
  "\<not> errors_Is (Some (errorString i msg)) (Some ErrToken)"
  by (simp add: errors_Is_def ErrToken_def NewInvalidTokenError_def)


lemma InvalidateWithError_plain:
  "InvalidateWithError h t (Some (errorString i msg)) =
     (Some (TokenError (Dyn (next_addr h)) (Some (errorString i msg)) []),
      fst (Invalidate t), snd (Invalidate t), h\<lparr>next_addr := Suc (next_addr h)\<rparr>)"
  by (simp add: InvalidateWithError_def errors_Is_ErrToken_errorString WrapWithInvalidToken_def
      split: prod.splits)

lemma errors_Is_sentinels:
  "errors_Is (Some ErrToken) (Some ErrToken)"
  "errors_Is (Some ErrAlreadyInvalid) (Some ErrToken)"
  "errors_Is (Some ErrConcurrentUpdate) (Some ErrToken)"
  by (simp_all add: errors_Is_def TokenError_Is_def ErrToken_def ErrAlreadyInvalid_def
      ErrConcurrentUpdate_def NewInvalidTokenError_def)

subsection \<open>cleanup\<close>

lemma locks_after_append:
  "locks_after st (xs @ ys) = locks_after (locks_after st xs) ys"
proof (induction xs arbitrary: st)
  case Nil
  show ?case by simp
next
  case (Cons e xs)
  obtain k held where st: "st = (k, held)" by (cases st)
  show ?case using Cons by (cases e) (simp_all add: st)
qed

lemma deletes_guarded_append:
  "deletes_guarded st (xs @ ys) =
     (deletes_guarded st xs \<and> deletes_guarded (locks_after st xs) ys)"
proof (induction xs arbitrary: st)
  case Nil
  show ?case by simp
next
  case (Cons e xs)
  obtain k held where st: "st = (k, held)" by (cases st)
  show ?case using Cons by (cases e) (auto simp: st)
qed

lemma cleanup_loop_trace:
  "cleanup_loop lstore cs h evs0 = Returns (h', evs) \<Longrightarrow>
     \<exists>new. evs = evs0 @ new
       \<and> (\<forall>held. deletes_guarded (True, held) new \<and> fst (locks_after (True, held) new))
       \<and> (\<forall>c p. MapDelete c p \<in> set new \<longrightarrow>
             c \<in> set cs \<and> records (lstore_obj h lstore) c = Some p
             \<and> revision (storage_obj h p) = 0)"
proof (induction cs arbitrary: h evs0)
  case Nil
  then show ?case by simp
next
  case (Cons c cs)
  show ?case
  proof (cases "records (lstore_obj h lstore) c")
    case None
    with Cons.prems have "cleanup_loop lstore cs h evs0 = Returns (h', evs)" by simp
    from Cons.IH [OF this] show ?thesis by auto
  next
    case (Some p)
    let ?st = "storage_obj h p"
    from Cons.prems Some have unl: "\<not> Mutex_locked ?st"
      by (auto simp: Let_def split: if_splits)
    show ?thesis
    proof (cases "revision ?st = 0")
      case False
      with Cons.prems Some unl
      have "cleanup_loop lstore cs h (evs0 @ [RecLock p, RecUnlock p]) = Returns (h', evs)"
        by (simp add: Let_def)
      from Cons.IH [OF this] obtain new where
        new: "evs = (evs0 @ [RecLock p, RecUnlock p]) @ new"
          "\<forall>held. deletes_guarded (True, held) new \<and> fst (locks_after (True, held) new)"
          "\<forall>c p. MapDelete c p \<in> set new \<longrightarrow>
             c \<in> set cs \<and> records (lstore_obj h lstore) c = Some p
             \<and> revision (storage_obj h p) = 0"
        by blast
      show ?thesis
        by (rule exI [of _ "[RecLock p, RecUnlock p] @ new"])
           (use new in \<open>auto simp: deletes_guarded_append locks_after_append\<close>)
    next
      case True
      let ?h1 = "h\<lparr>storage_obj := (storage_obj h)(p := ?st\<lparr>Mutex_locked := True\<rparr>),
                   lstore_obj := (lstore_obj h)
                     (lstore := (lstore_obj h lstore)
                        \<lparr>records := (records (lstore_obj h lstore))(c := None)\<rparr>)\<rparr>"
      from Cons.prems Some unl True
      have "cleanup_loop lstore cs ?h1 (evs0 @ [RecLock p, MapDelete c p]) = Returns (h', evs)"
        by (simp add: Let_def)
      from Cons.IH [OF this] obtain new where
        new: "evs = (evs0 @ [RecLock p, MapDelete c p]) @ new"
          "\<forall>held. deletes_guarded (True, held) new \<and> fst (locks_after (True, held) new)"
          "\<forall>c' p'. MapDelete c' p' \<in> set new \<longrightarrow>
             c' \<in> set cs \<and> records (lstore_obj ?h1 lstore) c' = Some p'
             \<and> revision (storage_obj ?h1 p') = 0"
        by blast
      have old: "\<And>c' p'. records (lstore_obj ?h1 lstore) c' = Some p'
                   \<Longrightarrow> revision (storage_obj ?h1 p') = 0
                   \<Longrightarrow> records (lstore_obj h lstore) c' = Some p'
                       \<and> revision (storage_obj h p') = 0"
        by (auto split: if_splits)
      have new3: "\<forall>c' p'. MapDelete c' p' \<in> set new \<longrightarrow>
             c' \<in> set cs \<and> records (lstore_obj h lstore) c' = Some p'
             \<and> revision (storage_obj h p') = 0"
        using new(3) old by blast
      show ?thesis
        by (rule exI [of _ "[RecLock p, MapDelete c p] @ new"])
           (use new(1,2) new3 Some True in
             \<open>auto simp: deletes_guarded_append locks_after_append\<close>)
    qed
  qed
qed

lemma cleanup_loop_memory:
  "cleanup_loop lstore cs h evs0 = Returns (h', evs) \<Longrightarrow>
     (\<forall>q. revision (storage_obj h' q) = revision (storage_obj h q)
          \<and> leases (storage_obj h' q) = leases (storage_obj h q)
          \<and> (Mutex_locked (storage_obj h q) \<longrightarrow> Mutex_locked (storage_obj h' q))
          \<and> (revision (storage_obj h q) \<noteq> 0 \<longrightarrow> storage_obj h' q = storage_obj h q))
     \<and> (\<forall>c. records (lstore_obj h' lstore) c = None
            \<or> records (lstore_obj h' lstore) c = records (lstore_obj h lstore) c)
     \<and> (\<forall>c p. records (lstore_obj h lstore) c = Some p
            \<and> records (lstore_obj h' lstore) c = None \<longrightarrow>
            c \<in> set cs \<and> revision (storage_obj h p) = 0 \<and> Mutex_locked (storage_obj h' p))
     \<and> (\<forall>c p. records (lstore_obj h lstore) c = Some p \<and> revision (storage_obj h p) \<noteq> 0
            \<longrightarrow> records (lstore_obj h' lstore) c = Some p)
     \<and> currentRev (lstore_obj h' lstore) = currentRev (lstore_obj h lstore)
     \<and> lease_arr h' = lease_arr h \<and> ipnet_arr h' = ipnet_arr h \<and> byte_arr h' = byte_arr h
     \<and> next_addr h' = next_addr h"
proof (induction cs arbitrary: h evs0)
  case Nil
  then show ?case by simp
next
  case (Cons c cs)
  show ?case
  proof (cases "records (lstore_obj h lstore) c")
    case None
    with Cons.prems have "cleanup_loop lstore cs h evs0 = Returns (h', evs)" by simp
    from Cons.IH [OF this] show ?thesis by auto
  next
    case (Some p)
    let ?st = "storage_obj h p"
    from Cons.prems Some have unl: "\<not> Mutex_locked ?st"
      by (auto simp: Let_def split: if_splits)
    show ?thesis
    proof (cases "revision ?st = 0")
      case False
      with Cons.prems Some unl
      have "cleanup_loop lstore cs h (evs0 @ [RecLock p, RecUnlock p]) = Returns (h', evs)"
        by (simp add: Let_def)
      from Cons.IH [OF this] show ?thesis by auto
    next
      case True
      let ?h1 = "h\<lparr>storage_obj := (storage_obj h)(p := ?st\<lparr>Mutex_locked := True\<rparr>),
                   lstore_obj := (lstore_obj h)
                     (lstore := (lstore_obj h lstore)
                        \<lparr>records := (records (lstore_obj h lstore))(c := None)\<rparr>)\<rparr>"
      from Cons.prems Some unl True
      have "cleanup_loop lstore cs ?h1 (evs0 @ [RecLock p, MapDelete c p]) = Returns (h', evs)"
        by (simp add: Let_def)
      note ih = Cons.IH [OF this]
      have r: "\<And>q. revision (storage_obj ?h1 q) = revision (storage_obj h q)"
        and l: "\<And>q. leases (storage_obj ?h1 q) = leases (storage_obj h q)"
        and m: "\<And>q. Mutex_locked (storage_obj h q) \<Longrightarrow> Mutex_locked (storage_obj ?h1 q)"
        and s: "\<And>q. revision (storage_obj h q) \<noteq> 0 \<Longrightarrow> storage_obj ?h1 q = storage_obj h q"
        and mp: "Mutex_locked (storage_obj ?h1 p)"
        and k: "\<And>c'. records (lstore_obj ?h1 lstore) c' =
                  (if c' = c then None else records (lstore_obj h lstore) c')"
        using True by auto
      from ih have q1: "\<forall>q. revision (storage_obj h' q) = revision (storage_obj h q)
          \<and> leases (storage_obj h' q) = leases (storage_obj h q)
          \<and> (Mutex_locked (storage_obj h q) \<longrightarrow> Mutex_locked (storage_obj h' q))
          \<and> (revision (storage_obj h q) \<noteq> 0 \<longrightarrow> storage_obj h' q = storage_obj h q)"
        using r l m s by metis
      from ih have q2: "\<forall>c'. records (lstore_obj h' lstore) c' = None
            \<or> records (lstore_obj h' lstore) c' = records (lstore_obj h lstore) c'"
        unfolding k by (metis (full_types))
      from ih have q3: "\<forall>c' p'. records (lstore_obj h lstore) c' = Some p'
            \<and> records (lstore_obj h' lstore) c' = None \<longrightarrow>
            c' \<in> set (c # cs) \<and> revision (storage_obj h p') = 0
            \<and> Mutex_locked (storage_obj h' p')"
        unfolding k r using Some True mp
        by (metis list.set_intros(1) list.set_intros(2) option.inject)
      from ih have q4: "\<forall>c' p'. records (lstore_obj h lstore) c' = Some p'
            \<and> revision (storage_obj h p') \<noteq> 0 \<longrightarrow> records (lstore_obj h' lstore) c' = Some p'"
        unfolding k r using Some True by (metis option.inject)
      from ih have q5: "currentRev (lstore_obj h' lstore) = currentRev (lstore_obj h lstore)
          \<and> lease_arr h' = lease_arr h \<and> ipnet_arr h' = ipnet_arr h \<and> byte_arr h' = byte_arr h
          \<and> next_addr h' = next_addr h"
        by simp
      from q1 q2 q3 q4 q5 show ?thesis by blast
    qed
  qed
qed

lemma cleanup_loop_returns:
  "own_records h lstore \<Longrightarrow> records_unlocked h lstore \<Longrightarrow>
     \<exists>h' evs. cleanup_loop lstore cs h evs0 = Returns (h', evs)"
proof (induction cs arbitrary: h evs0)
  case Nil
  show ?case by simp
next
  case (Cons c cs)
  show ?case
  proof (cases "records (lstore_obj h lstore) c")
    case None
    with Cons.IH [OF Cons.prems] show ?thesis by simp
  next
    case (Some p)
    let ?st = "storage_obj h p"
    from Cons.prems(2) Some have unl: "\<not> Mutex_locked ?st"
      by (simp add: records_unlocked_def)
    show ?thesis
    proof (cases "revision ?st = 0")
      case False
      with Some unl Cons.IH [OF Cons.prems] show ?thesis by (simp add: Let_def)
    next
      case True
      let ?h1 = "h\<lparr>storage_obj := (storage_obj h)(p := ?st\<lparr>Mutex_locked := True\<rparr>),
                   lstore_obj := (lstore_obj h)
                     (lstore := (lstore_obj h lstore)
                        \<lparr>records := (records (lstore_obj h lstore))(c := None)\<rparr>)\<rparr>"
      have inj: "\<And>c'. c' \<noteq> c \<Longrightarrow> records (lstore_obj h lstore) c' \<noteq> Some p"
        using Cons.prems(1) Some by (auto simp: own_records_def inj_on_def dom_def)
      have o: "own_records ?h1 lstore"
        using Cons.prems(1)
        by (auto simp: own_records_def inj_on_def dom_def split: if_splits)
      have u: "records_unlocked ?h1 lstore"
        using Cons.prems(2) inj
        by (auto simp: records_unlocked_def split: if_splits)
      from Cons.IH [OF o u] Some unl True show ?thesis by (simp add: Let_def)
    qed
  qed
qed

lemma ex_store2_simps:
  "lstore_obj ex_store2 0 = \<lparr>records = [ex_cid \<mapsto> 10, ex_cid2 \<mapsto> 11], currentRev = 5\<rparr>"
  "storage_obj ex_store2 10 = \<lparr>revision = 5, leases = Slice 2 0 3, Mutex_locked = False\<rparr>"
  "storage_obj ex_store2 11 = zero_storage"
  "next_addr ex_store2 = 12"
  "lease_arr ex_store2 = lease_arr ex_store"
  by (simp_all add: ex_store2_def ex_store_simps)

lemma ex_store2_own: "own_records ex_store2 0"
  by (auto simp: own_records_def ex_store2_simps inj_on_def dom_def split: if_splits)

lemma ex_store2_unlocked: "records_unlocked ex_store2 0"
  by (auto simp: records_unlocked_def ex_store2_simps zero_storage_def split: if_splits)

subsection \<open>The loop over the leases of a record\<close>

lemma make_cap_suffices:
  fixes i n :: nat
  assumes "i < n"
  shows "i \<le> n - n div (i + 1)"
proof (cases "n div (i + 1) = 0")
  case True
  with assms show ?thesis by simp
next
  case False
  define q where "q = n div (i + 1)"
  have le: "q * (i + 1) \<le> n" unfolding q_def by (rule div_times_less_eq_dividend)
  have "1 \<le> q" using False unfolding q_def by simp
  then have a: "i * 1 \<le> i * q" by (rule mult_le_mono2)
  have b: "q * (i + 1) = i * q + q" by (simp add: algebra_simps)
  from le a b have "i + q \<le> n" by linarith
  then show ?thesis unfolding q_def by simp
qed

lemma filter_upt_split:
  "i < n \<Longrightarrow> filter P [i..<n] = (if P i then [i] else []) @ filter P [Suc i..<n]"
  by (simp add: upt_conv_Cons)

lemma scan_leases_eq:
  assumes "all = pre @ rest" and "i = length pre"
    and "cleanedLeases = None \<longrightarrow> (\<forall>l \<in> set pre. \<not> ExpireAt l < cutoff)"
  shows "scan_leases cutoff all i rest cleanedLeases n spawned =
     Returns
       ((case cleanedLeases of
           Some c \<Rightarrow> Some (c @ kept_leases cutoff rest)
         | None \<Rightarrow> if \<exists>l \<in> set rest. ExpireAt l < cutoff
                    then Some (kept_leases cutoff all) else None),
        n + (length rest - length (kept_leases cutoff rest)),
        spawned @ filter (\<lambda>j. ExpireAt (all ! j) < cutoff \<and> ExpireAction (all ! j) \<noteq> None)
                    [i..<length all])"
  using assms
proof (induction rest arbitrary: pre i cleanedLeases n spawned)
  case Nil
  then show ?case by (simp add: kept_leases_def split: option.splits)
next
  case (Cons lease rest)
  have all: "all = (pre @ [lease]) @ rest" and i': "Suc i = length (pre @ [lease])"
    using Cons.prems by simp_all
  have nth: "all ! i = lease" using Cons.prems by simp
  have lt: "i < length all" using Cons.prems by simp
  have len: "length (filter (\<lambda>l. \<not> ExpireAt l < cutoff) rest) \<le> length rest"
    by simp
  show ?case
  proof (cases "ExpireAt lease < cutoff")
    case True
    show ?thesis
    proof (cases cleanedLeases)
      case None
      have cap: "\<not> length all - length all div (i + 1) < i"
        using make_cap_suffices [OF lt] by simp
      have pre: "take i all = kept_leases cutoff pre"
        using Cons.prems None by (simp add: kept_leases_def)
      have "kept_leases cutoff all = kept_leases cutoff pre @ kept_leases cutoff rest"
        using Cons.prems True by (simp add: kept_leases_def)
      with True None cap pre len
        Cons.IH [OF all i', of "Some (take i all)" "Suc n"
          "if ExpireAction lease \<noteq> None then spawned @ [i] else spawned"]
      show ?thesis
        by (simp add: filter_upt_split [OF lt] nth kept_leases_def Let_def Suc_diff_le)
    next
      case (Some c)
      with True len
        Cons.IH [OF all i', of "Some c" "Suc n"
          "if ExpireAction lease \<noteq> None then spawned @ [i] else spawned"]
      show ?thesis
        by (simp add: filter_upt_split [OF lt] nth kept_leases_def Let_def Suc_diff_le)
    qed
  next
    case False
    show ?thesis
    proof (cases cleanedLeases)
      case None
      have "None = None \<longrightarrow> (\<forall>l \<in> set (pre @ [lease]). \<not> ExpireAt l < cutoff)"
        using Cons.prems None False by simp
      from Cons.IH [OF all i' this, of n spawned] False None
      show ?thesis
        by (simp add: filter_upt_split [OF lt] nth kept_leases_def)
    next
      case (Some c)
      with False Cons.IH [OF all i', of "Some (c @ [lease])" n spawned]
      show ?thesis
        by (simp add: filter_upt_split [OF lt] nth kept_leases_def)
    qed
  qed
qed

lemma scan_leases_all:
  "scan_leases cutoff all 0 all None 0 [] =
     Returns
       (if length (kept_leases cutoff all) = length all then None
        else Some (kept_leases cutoff all),
        length all - length (kept_leases cutoff all),
        spawned_at cutoff all)"
proof -
  have "(\<exists>l \<in> set all. ExpireAt l < cutoff) \<longleftrightarrow> length (kept_leases cutoff all) \<noteq> length all"
    unfolding kept_leases_def
    by (metis (mono_tags, lifting) filter_True filter_id_conv length_filter_less nat_neq_iff)
  with scan_leases_eq [of all "[]" all 0 None cutoff 0 "[]"] show ?thesis
    by (simp add: spawned_at_def)
qed

subsection \<open>One round of the sweep\<close>

lemma run_callbacks_Panics:
  "run_callbacks all delay spawned = Panics \<longleftrightarrow>
     (\<exists>i \<in> set spawned. ExpireAction (all ! (min (i + delay i) (length all - 1))) = None)"
  by (induction spawned) (auto simp: run_callback_def Let_def split: option.splits outcome.splits)

lemma run_callbacks_not_Blocks: "run_callbacks all delay spawned \<noteq> Blocks"
  by (induction spawned) (auto simp: run_callback_def Let_def split: option.splits outcome.splits)

lemma run_callbacks_safe:
  assumes "callbacks_safe cutoff delay all"
  shows "run_callbacks all delay (spawned_at cutoff all)
           = Returns (invocations all delay (spawned_at cutoff all))"
proof -
  from assms have "run_callbacks all delay (spawned_at cutoff all) \<noteq> Panics"
    by (simp add: run_callbacks_Panics callbacks_safe_def)
  with run_callbacks_not_Blocks [of all delay "spawned_at cutoff all"] show ?thesis
    by (cases "run_callbacks all delay (spawned_at cutoff all)") (simp_all add: invocations_def)
qed

lemma run_callbacks_unsafe:
  "\<not> callbacks_safe cutoff delay all \<Longrightarrow> run_callbacks all delay (spawned_at cutoff all) = Panics"
  by (simp add: run_callbacks_Panics callbacks_safe_def)

lemma callbacks_safe_prompt: "(\<And>i. delay i = 0) \<Longrightarrow> callbacks_safe cutoff delay all"
  by (auto simp: callbacks_safe_def spawned_at_def)

lemma callbacks_safe_all:
  assumes "\<forall>l \<in> set all. ExpireAction l \<noteq> None"
  shows "callbacks_safe cutoff delay all"
  unfolding callbacks_safe_def
proof
  fix i assume "i \<in> set (spawned_at cutoff all)"
  then have "i < length all" by (simp add: spawned_at_def)
  then have "min (i + delay i) (length all - 1) < length all" by simp
  then have "all ! (min (i + delay i) (length all - 1)) \<in> set all" by (rule nth_mem)
  with assms show "ExpireAction (all ! (min (i + delay i) (length all - 1))) \<noteq> None" by blast
qed

lemma sweep_Cons_visit:
  assumes "records (lstore_obj (mem s) lstore) cid = Some p"
    and "\<not> Mutex_locked (storage_obj (mem s) p)"
  shows "sweep cutoff sched workAmount lstore (cid # rest) s =
     (if revision (storage_obj (mem s) p) \<noteq> 0
         \<and> \<not> callbacks_safe cutoff (sched cid) (record_leases (mem s) p)
      then Panics
      else if revision (storage_obj (mem s) p) \<noteq> 0
         \<and> workAmount \<le> cleaned (visit cutoff (sched cid) lstore cid p s)
      then Returns (visit cutoff (sched cid) lstore cid p s)
      else sweep cutoff sched workAmount lstore rest (visit cutoff (sched cid) lstore cid p s))"
proof (cases "revision (storage_obj (mem s) p) = 0")
  case True
  with assms show ?thesis by (simp add: visit_def Let_def)
next
  case False
  let ?all = "record_leases (mem s) p"
  let ?kept = "kept_leases cutoff ?all"
  show ?thesis
  proof (cases "callbacks_safe cutoff (sched cid) ?all")
    case unsafe: False
    note rc = run_callbacks_unsafe [OF unsafe, unfolded record_leases_def]
    from False assms unsafe show ?thesis
      by (simp add: Let_def scan_leases_all rc)
  next
    case safe: True
    note rc = run_callbacks_safe [OF safe, unfolded record_leases_def]
    note sf = safe [unfolded record_leases_def]
    show ?thesis
    proof (cases "length ?kept = length ?all")
      case True
      with False assms safe show ?thesis
        by (simp add: visit_def Let_def scan_leases_all record_leases_def rc)
    next
      case ne: False
      show ?thesis
      proof (cases "?kept = []")
        case True
        with False ne assms safe show ?thesis
          by (simp add: visit_def Let_def scan_leases_all record_leases_def rc)
      next
        case k: False
        with False ne assms safe show ?thesis
          by (simp add: visit_def Let_def scan_leases_all record_leases_def getRevision_eq rc)
      qed
    qed
  qed
qed

lemma kept_leases_length: "length (kept_leases cutoff xs) \<le> length xs"
  by (simp add: kept_leases_def)






subsection \<open>The sweep\<close>










subsection \<open>The revisions that a sweep hands out\<close>








subsection \<open>Revisions while the counter does not wrap around\<close>

lemma word_succ_no_wrap:
  fixes c :: uint64
  assumes "unat c + 1 < 2 ^ 64"
  shows "c + 1 \<noteq> 0" and "c < c + 1" and "unat (c + 1) = unat c + 1"
proof -
  show u: "unat (c + 1) = unat c + 1"
    using assms by (simp add: unat_word_ariths)
  then show "c < c + 1" by (simp add: word_less_nat_alt)
  from u show "c + 1 \<noteq> 0" by (metis Suc_eq_plus1 nat.distinct(1) unat_0)
qed

lemma visit_mem:
  "mem (visit cutoff delay lstore cid p s) = mem s
   \<or> (\<exists>kept. mem (visit cutoff delay lstore cid p s) =
         (mem s)\<lparr>lease_arr := (lease_arr (mem s))(next_addr (mem s) := kept),
                  next_addr := Suc (next_addr (mem s)),
                  lstore_obj := (lstore_obj (mem s))
                    (lstore := (lstore_obj (mem s) lstore)
                       \<lparr>currentRev :=
                          (if currentRev (lstore_obj (mem s) lstore) + 1 = 0 then 1
                           else currentRev (lstore_obj (mem s) lstore) + 1)\<rparr>),
                  storage_obj := (storage_obj (mem s))
                    (p := (storage_obj (mem s) p)
                       \<lparr>leases := Slice (next_addr (mem s)) 0 (length kept),
                        revision :=
                          (if currentRev (lstore_obj (mem s) lstore) + 1 = 0 then 1
                           else currentRev (lstore_obj (mem s) lstore) + 1)\<rparr>)\<rparr>)
   \<or> mem (visit cutoff delay lstore cid p s) =
         (mem s)\<lparr>storage_obj := (storage_obj (mem s))(p := reset (storage_obj (mem s) p))\<rparr>"
proof -
  let ?all = "record_leases (mem s) p"
  let ?kept = "kept_leases cutoff ?all"
  consider (untouched) "revision (storage_obj (mem s) p) = 0 \<or> length ?kept = length ?all"
    | (some) "revision (storage_obj (mem s) p) \<noteq> 0" "length ?kept \<noteq> length ?all" "?kept \<noteq> []"
    | (none) "revision (storage_obj (mem s) p) \<noteq> 0" "length ?kept \<noteq> length ?all" "?kept = []"
    by blast
  then show ?thesis
  proof cases
    case untouched
    then have "mem (visit cutoff delay lstore cid p s) = mem s"
      by (auto simp: visit_def Let_def)
    then show ?thesis by blast
  next
    case some
    then have "mem (visit cutoff delay lstore cid p s) =
         (mem s)\<lparr>lease_arr := (lease_arr (mem s))(next_addr (mem s) := ?kept),
                  next_addr := Suc (next_addr (mem s)),
                  lstore_obj := (lstore_obj (mem s))
                    (lstore := (lstore_obj (mem s) lstore)
                       \<lparr>currentRev :=
                          (if currentRev (lstore_obj (mem s) lstore) + 1 = 0 then 1
                           else currentRev (lstore_obj (mem s) lstore) + 1)\<rparr>),
                  storage_obj := (storage_obj (mem s))
                    (p := (storage_obj (mem s) p)
                       \<lparr>leases := Slice (next_addr (mem s)) 0 (length ?kept),
                        revision :=
                          (if currentRev (lstore_obj (mem s) lstore) + 1 = 0 then 1
                           else currentRev (lstore_obj (mem s) lstore) + 1)\<rparr>)\<rparr>"
      by (simp add: visit_def Let_def)
    then show ?thesis by blast
  next
    case none
    then have "mem (visit cutoff delay lstore cid p s) =
         (mem s)\<lparr>storage_obj := (storage_obj (mem s))(p := reset (storage_obj (mem s) p))\<rparr>"
      by (simp add: visit_def Let_def)
    then show ?thesis by blast
  qed
qed

lemma visit_mem_cases:
  obtains (same) "mem (visit cutoff delay lstore cid p s) = mem s"
  | (renewed) kept where
      "mem (visit cutoff delay lstore cid p s) =
         (mem s)\<lparr>lease_arr := (lease_arr (mem s))(next_addr (mem s) := kept),
                  next_addr := Suc (next_addr (mem s)),
                  lstore_obj := (lstore_obj (mem s))
                    (lstore := (lstore_obj (mem s) lstore)
                       \<lparr>currentRev :=
                          (if currentRev (lstore_obj (mem s) lstore) + 1 = 0 then 1
                           else currentRev (lstore_obj (mem s) lstore) + 1)\<rparr>),
                  storage_obj := (storage_obj (mem s))
                    (p := (storage_obj (mem s) p)
                       \<lparr>leases := Slice (next_addr (mem s)) 0 (length kept),
                        revision :=
                          (if currentRev (lstore_obj (mem s) lstore) + 1 = 0 then 1
                           else currentRev (lstore_obj (mem s) lstore) + 1)\<rparr>)\<rparr>"
  | (emptied) "mem (visit cutoff delay lstore cid p s) =
         (mem s)\<lparr>storage_obj := (storage_obj (mem s))(p := reset (storage_obj (mem s) p))\<rparr>"
  using visit_mem [of cutoff delay lstore cid p s] by blast

lemma visit_revisions:
  assumes nw: "unat (currentRev (lstore_obj (mem s) lstore)) + 1 < 2 ^ 64"
    and bnd: "revisions_bounded (mem s) lstore"
  shows "currentRev (lstore_obj (mem s) lstore)
           \<le> currentRev (lstore_obj (mem (visit cutoff delay lstore cid p s)) lstore)"
    and "unat (currentRev (lstore_obj (mem (visit cutoff delay lstore cid p s)) lstore))
           \<le> unat (currentRev (lstore_obj (mem s) lstore)) + 1"
    and "revisions_bounded (mem (visit cutoff delay lstore cid p s)) lstore"
    and "storage_obj (mem (visit cutoff delay lstore cid p s)) q = storage_obj (mem s) q
         \<or> revision (storage_obj (mem (visit cutoff delay lstore cid p s)) q) = 0
         \<or> currentRev (lstore_obj (mem s) lstore)
              < revision (storage_obj (mem (visit cutoff delay lstore cid p s)) q)"
proof -
  let ?c = "currentRev (lstore_obj (mem s) lstore)"
  let ?m = "mem (visit cutoff delay lstore cid p s)"
  note w = word_succ_no_wrap [OF nw]
  have le: "?c \<le> ?c + 1" using w(2) by simp
  have old: "\<And>c q. records (lstore_obj (mem s) lstore) c = Some q
               \<Longrightarrow> revision (storage_obj (mem s) q) \<le> ?c + 1"
    using bnd le unfolding revisions_bounded_def by (meson order_trans)
  have "?c \<le> currentRev (lstore_obj ?m lstore)
    \<and> unat (currentRev (lstore_obj ?m lstore)) \<le> unat ?c + 1
    \<and> revisions_bounded ?m lstore
    \<and> (storage_obj ?m q = storage_obj (mem s) q
         \<or> revision (storage_obj ?m q) = 0
         \<or> ?c < revision (storage_obj ?m q))"
  proof (cases rule: visit_mem_cases [of cutoff delay lstore cid p s])
    case same
    then show ?thesis using bnd by simp
  next
    case (renewed kept)
    have "revisions_bounded ?m lstore"
      unfolding revisions_bounded_def renewed using old w(1) by simp
    then show ?thesis using w le by (simp add: renewed)
  next
    case emptied
    have "revisions_bounded ?m lstore"
      unfolding revisions_bounded_def emptied using bnd
      by (simp add: revisions_bounded_def reset_def)
    then show ?thesis by (simp add: emptied reset_def)
  qed
  then show "?c \<le> currentRev (lstore_obj ?m lstore)"
    and "unat (currentRev (lstore_obj ?m lstore)) \<le> unat ?c + 1"
    and "revisions_bounded ?m lstore"
    and "storage_obj ?m q = storage_obj (mem s) q
         \<or> revision (storage_obj ?m q) = 0
         \<or> ?c < revision (storage_obj ?m q)"
    by blast+
qed

lemma sweep_revisions:
  assumes "sweep cutoff sched workAmount lstore order s = Returns s'"
    and "unat (currentRev (lstore_obj (mem s) lstore)) + length order < 2 ^ 64"
    and "revisions_bounded (mem s) lstore"
  shows "currentRev (lstore_obj (mem s) lstore) \<le> currentRev (lstore_obj (mem s') lstore)
    \<and> unat (currentRev (lstore_obj (mem s') lstore))
         \<le> unat (currentRev (lstore_obj (mem s) lstore)) + length order
    \<and> revisions_bounded (mem s') lstore
    \<and> (\<forall>q. storage_obj (mem s') q = storage_obj (mem s) q
           \<or> revision (storage_obj (mem s') q) = 0
           \<or> currentRev (lstore_obj (mem s) lstore) < revision (storage_obj (mem s') q))"
  using assms
proof (induction order arbitrary: s)
  case Nil
  then show ?case by simp
next
  case (Cons cid rest)
  let ?c = "currentRev (lstore_obj (mem s) lstore)"
  show ?case
  proof (cases "records (lstore_obj (mem s) lstore) cid")
    case None
    with Cons.prems(1) have "sweep cutoff sched workAmount lstore rest s = Returns s'" by simp
    from Cons.IH [OF this] Cons.prems(2,3) show ?thesis by auto
  next
    case (Some p)
    from Cons.prems(1) Some have unl: "\<not> Mutex_locked (storage_obj (mem s) p)"
      by (auto simp: Let_def split: if_splits)
    let ?s2 = "visit cutoff (sched cid) lstore cid p s"
    let ?c2 = "currentRev (lstore_obj (mem ?s2) lstore)"
    have nw: "unat ?c + 1 < 2 ^ 64" using Cons.prems(2) by simp
    note vr = visit_revisions [OF nw Cons.prems(3), where cutoff = cutoff
        and delay = "sched cid" and cid = cid and p = p]
    have b2: "revisions_bounded (mem ?s2) lstore" by (rule vr(3))
    have step: "\<And>q. storage_obj (mem ?s2) q = storage_obj (mem s) q
         \<or> revision (storage_obj (mem ?s2) q) = 0
         \<or> ?c < revision (storage_obj (mem ?s2) q)"
      by (rule vr(4))
    show ?thesis
    proof (cases "revision (storage_obj (mem s) p) \<noteq> 0 \<and> workAmount \<le> cleaned ?s2")
      case True
      with Cons.prems(1) have "s' = ?s2"
        unfolding sweep_Cons_visit [OF Some unl] by (simp split: if_splits)
      with vr(1,2) b2 step show ?thesis by auto
    next
      case False
      with Cons.prems(1) have run: "sweep cutoff sched workAmount lstore rest ?s2 = Returns s'"
        unfolding sweep_Cons_visit [OF Some unl] by (simp split: if_splits)
      have "unat ?c2 + length rest < 2 ^ 64" using vr(2) Cons.prems(2) by simp
      from Cons.IH [OF run this b2]
      have ih: "?c2 \<le> currentRev (lstore_obj (mem s') lstore)"
        "unat (currentRev (lstore_obj (mem s') lstore)) \<le> unat ?c2 + length rest"
        "revisions_bounded (mem s') lstore"
        "\<And>q. storage_obj (mem s') q = storage_obj (mem ?s2) q
           \<or> revision (storage_obj (mem s') q) = 0
           \<or> ?c2 < revision (storage_obj (mem s') q)"
        by blast+
      have "storage_obj (mem s') q = storage_obj (mem s) q
           \<or> revision (storage_obj (mem s') q) = 0
           \<or> ?c < revision (storage_obj (mem s') q)" for q
      proof -
        consider "storage_obj (mem s') q = storage_obj (mem ?s2) q"
          | "revision (storage_obj (mem s') q) = 0"
          | "?c2 < revision (storage_obj (mem s') q)"
          using ih(4) [of q] by blast
        then show ?thesis
        proof cases
          case 1
          with step [of q] show ?thesis by simp
        next
          case 2
          then show ?thesis by simp
        next
          case 3
          with vr(1) have "?c < revision (storage_obj (mem s') q)" by (rule le_less_trans)
          then show ?thesis by simp
        qed
      qed
      moreover have "?c \<le> currentRev (lstore_obj (mem s') lstore)"
        using vr(1) ih(1) by (rule order_trans)
      moreover have "unat (currentRev (lstore_obj (mem s') lstore))
           \<le> unat ?c + length (cid # rest)"
        using vr(2) ih(2) by simp
      ultimately show ?thesis using ih(3) by blast
    qed
  qed
qed

lemma ex_leases_kept:
  "kept_leases (ex_now - expireGrace) [ex_lease1, ex_lease2, ex_lease3] = [ex_lease2]"
  by (simp add: kept_leases_def ex_lease1_def ex_lease2_def ex_lease3_def ex_now_def
      expireGrace_def)

lemma ex_store_record_leases:
  "record_leases ex_store 10 = [ex_lease1, ex_lease2, ex_lease3]"
  by (simp add: record_leases_def read_slice_def ex_store_simps)


lemma ex_store_bounded: "revisions_bounded ex_store 0"
  by (simp add: revisions_bounded_def ex_store_simps)


lemma ex_store_wrapping_simps:
  "lstore_obj ex_store_wrapping 0 = \<lparr>records = [ex_cid \<mapsto> 10], currentRev = 0xFFFFFFFFFFFFFFFF\<rparr>"
  "storage_obj ex_store_wrapping = storage_obj ex_store"
  "lease_arr ex_store_wrapping = lease_arr ex_store"
  "next_addr ex_store_wrapping = 11"
  "record_leases ex_store_wrapping 10 = [ex_lease1, ex_lease2, ex_lease3]"
  by (simp_all add: ex_store_wrapping_def ex_store_simps record_leases_def read_slice_def)

lemma ex_leases_safe: "callbacks_safe cutoff delay [ex_lease1, ex_lease2, ex_lease3]"
  by (rule callbacks_safe_all) (simp add: ex_lease1_def ex_lease2_def ex_lease3_def)

lemma ex_store_Expire:
  "Expire ex_now sched [ex_cid] ex_store 0 10 =
     Returns (visit (ex_now - expireGrace) (sched ex_cid) 0 ex_cid 10
                \<lparr>mem = ex_store, cleaned = 0, cleanupCandidates = [], callbacks = [],
                 visited = []\<rparr>)"
  unfolding Expire_def Let_def
  by (subst sweep_Cons_visit [where p = 10])
     (simp_all add: ex_store_simps visit_def Let_def ex_store_record_leases ex_leases_kept
        ex_leases_safe)


lemma ex_spawned_at:
  "spawned_at (ex_now - expireGrace) [ex_lease1, ex_lease2, ex_lease3] = [0, 2]"
proof -
  have "[0..<3] = [0, 1, 2]" by (simp add: upt_rec)
  then show ?thesis
    by (simp add: spawned_at_def ex_lease1_def ex_lease2_def ex_lease3_def ex_now_def
        expireGrace_def)
qed

text \<open>
  When the third lease has no callback, the goroutine started for the first lease calls a
  nil function if it runs after the loop, and the program ends; if it runs at once,
  \<open>Expire\<close> returns.
\<close>

lemma ex_store_nil_Expire:
  "Expire ex_now ex_late [ex_cid] ex_store_nil 0 10 = Panics"
  "\<exists>s'. Expire ex_now ex_prompt [ex_cid] ex_store_nil 0 10 = Returns s'"
proof -
  let ?all = "[ex_lease1, ex_lease2, ex_lease3\<lparr>ExpireAction := None\<rparr>]"
  have st: "lstore_obj ex_store_nil 0 = lstore_obj ex_store 0"
    "storage_obj ex_store_nil 10 = storage_obj ex_store 10"
    by (simp_all add: ex_store_nil_def)
  have rl: "record_leases ex_store_nil 10 = ?all"
    by (simp add: record_leases_def read_slice_def ex_store_nil_def ex_store_simps)
  have "[0..<3] = [0, 1, 2]" by (simp add: upt_rec)
  then have sp: "spawned_at (ex_now - expireGrace) ?all = [0]"
    by (simp add: spawned_at_def ex_lease1_def ex_lease2_def ex_lease3_def ex_now_def
        expireGrace_def)
  have late: "\<not> callbacks_safe (ex_now - expireGrace) (ex_late ex_cid) ?all"
    by (simp add: callbacks_safe_def sp ex_late_def)
  have prompt: "callbacks_safe (ex_now - expireGrace) (ex_prompt ex_cid) ?all"
    by (rule callbacks_safe_prompt) (simp add: ex_prompt_def)
  show "Expire ex_now ex_late [ex_cid] ex_store_nil 0 10 = Panics"
    unfolding Expire_def Let_def
    by (subst sweep_Cons_visit [where p = 10]) (simp_all add: st ex_store_simps rl late)
  show "\<exists>s'. Expire ex_now ex_prompt [ex_cid] ex_store_nil 0 10 = Returns s'"
    unfolding Expire_def Let_def
    by (subst sweep_Cons_visit [where p = 10]) (simp_all add: st ex_store_simps rl prompt)
qed

subsection \<open>Copies of leases\<close>































subsection \<open>Revisions over the operations of a store\<close>

lemma rev_step_refl: "rev_step lstore h h"
  by (simp add: rev_step_def)

lemma rev_step_trans:
  assumes "rev_step lstore h h1" and "rev_step lstore h1 h2"
  shows "rev_step lstore h h2"
proof -
  let ?c = "currentRev (lstore_obj h lstore)" and ?c1 = "currentRev (lstore_obj h1 lstore)"
  from assms have le: "?c \<le> ?c1" "?c1 \<le> currentRev (lstore_obj h2 lstore)"
    by (simp_all add: rev_step_def)
  have "observed_revision h2 lstore c = observed_revision h lstore c
        \<or> observed_revision h2 lstore c = 0
        \<or> ?c < observed_revision h2 lstore c" for c
  proof -
    consider "observed_revision h2 lstore c = observed_revision h1 lstore c"
      | "observed_revision h2 lstore c = 0"
      | "?c1 < observed_revision h2 lstore c"
      using assms(2) unfolding rev_step_def by blast
    then show ?thesis
    proof cases
      case 1
      with assms(1) show ?thesis unfolding rev_step_def by metis
    next
      case 2
      then show ?thesis by simp
    next
      case 3
      with le(1) have "?c < observed_revision h2 lstore c" by (rule le_less_trans)
      then show ?thesis by simp
    qed
  qed
  with le show ?thesis unfolding rev_step_def by (meson order_trans)
qed

text \<open>The four ways in which an operation changes the map, the counter and the revisions.\<close>

lemma inv_unchanged:
  assumes "store_inv h lstore"
    and "records (lstore_obj h' lstore) = records (lstore_obj h lstore)"
    and "currentRev (lstore_obj h' lstore) = currentRev (lstore_obj h lstore)"
    and "\<And>q. revision (storage_obj h' q) = revision (storage_obj h q)"
    and "next_addr h \<le> next_addr h'"
  shows "store_inv h' lstore" and "rev_step lstore h h'"
proof -
  show "rev_step lstore h h'"
    using assms(2-4) by (simp add: rev_step_def observed_revision_def split: option.splits)
  have "own_records h' lstore"
    using assms(1,2,5) unfolding store_inv_def own_records_def by (auto intro: less_le_trans)
  moreover have "revisions_bounded h' lstore"
    using assms(1) unfolding store_inv_def revisions_bounded_def assms(2,3,4) by blast
  moreover have "revisions_distinct h' lstore"
    using assms(1) unfolding store_inv_def revisions_distinct_def assms(2,4) by blast
  ultimately show "store_inv h' lstore" by (simp add: store_inv_def)
qed

lemma inv_renewed:
  assumes inv: "store_inv h lstore"
    and nw: "unat (currentRev (lstore_obj h lstore)) + 1 < 2 ^ 64"
    and rec: "records (lstore_obj h lstore) cid = Some p"
    and recs: "records (lstore_obj h' lstore) = records (lstore_obj h lstore)"
    and cur: "currentRev (lstore_obj h' lstore) = currentRev (lstore_obj h lstore) + 1"
    and new: "revision (storage_obj h' p) = currentRev (lstore_obj h lstore) + 1"
    and old: "\<And>q. q \<noteq> p \<Longrightarrow> revision (storage_obj h' q) = revision (storage_obj h q)"
    and nxt: "next_addr h \<le> next_addr h'"
  shows "store_inv h' lstore" and "rev_step lstore h h'"
proof -
  let ?c = "currentRev (lstore_obj h lstore)"
  let ?recs = "records (lstore_obj h lstore)"
  note w = word_succ_no_wrap [OF nw]
  have le: "?c \<le> ?c + 1" using w(2) by simp
  have only: "c = cid" if "?recs c = Some p" for c
    using inv rec that unfolding store_inv_def own_records_def inj_on_def dom_def by auto
  have bnd: "revision (storage_obj h q) \<le> ?c" if "?recs c = Some q" for c q
    using inv that unfolding store_inv_def revisions_bounded_def by blast
  have lt: "revision (storage_obj h q) < ?c + 1" if "?recs c = Some q" for c q
    using bnd [OF that] w(2) by (rule le_less_trans)
  show "rev_step lstore h h'"
    unfolding rev_step_def cur observed_revision_def recs
  proof (intro conjI allI le)
    fix c
    show "(case ?recs c of None \<Rightarrow> 0 | Some q \<Rightarrow> revision (storage_obj h' q))
            = (case ?recs c of None \<Rightarrow> 0 | Some q \<Rightarrow> revision (storage_obj h q))
          \<or> (case ?recs c of None \<Rightarrow> 0 | Some q \<Rightarrow> revision (storage_obj h' q)) = 0
          \<or> ?c < (case ?recs c of None \<Rightarrow> 0 | Some q \<Rightarrow> revision (storage_obj h' q))"
    proof (cases "?recs c")
      case None
      then show ?thesis by simp
    next
      case (Some q)
      then show ?thesis using new old [of q] w(2) by (cases "q = p") simp_all
    qed
  qed
  have "own_records h' lstore"
    using inv nxt unfolding store_inv_def own_records_def recs by (auto intro: less_le_trans)
  moreover have "revisions_bounded h' lstore"
    unfolding revisions_bounded_def recs cur
  proof (intro allI impI)
    fix c q assume cq: "?recs c = Some q"
    show "revision (storage_obj h' q) \<le> ?c + 1"
    proof (cases "q = p")
      case True
      then show ?thesis by (simp add: new)
    next
      case False
      with bnd [OF cq] le show ?thesis by (simp add: old)
    qed
  qed
  moreover have "revisions_distinct h' lstore"
    unfolding revisions_distinct_def recs
  proof (intro allI impI)
    fix c c' q q'
    assume a: "?recs c = Some q \<and> ?recs c' = Some q' \<and> c \<noteq> c'
               \<and> revision (storage_obj h' q) \<noteq> 0"
    then have cq: "?recs c = Some q" and cq': "?recs c' = Some q'" and ne: "c \<noteq> c'"
      and nz: "revision (storage_obj h' q) \<noteq> 0"
      by simp_all
    have pq: "\<not> (q = p \<and> q' = p)" using only cq cq' ne by blast
    show "revision (storage_obj h' q) \<noteq> revision (storage_obj h' q')"
    proof (cases "q = p")
      case True
      with pq have "q' \<noteq> p" by simp
      with lt [OF cq'] True show ?thesis by (simp add: new old)
    next
      case qp: False
      show ?thesis
      proof (cases "q' = p")
        case True
        with lt [OF cq] qp show ?thesis by (simp add: new old)
      next
        case False
        with qp nz cq cq' ne inv show ?thesis
          unfolding store_inv_def revisions_distinct_def by (simp add: old)
      qed
    qed
  qed
  ultimately show "store_inv h' lstore" by (simp add: store_inv_def)
qed

lemma inv_emptied:
  assumes inv: "store_inv h lstore"
    and recs: "records (lstore_obj h' lstore) = records (lstore_obj h lstore)"
    and cur: "currentRev (lstore_obj h' lstore) = currentRev (lstore_obj h lstore)"
    and new: "revision (storage_obj h' p) = 0"
    and old: "\<And>q. q \<noteq> p \<Longrightarrow> revision (storage_obj h' q) = revision (storage_obj h q)"
    and nxt: "next_addr h \<le> next_addr h'"
  shows "store_inv h' lstore" and "rev_step lstore h h'"
proof -
  let ?recs = "records (lstore_obj h lstore)"
  have r: "revision (storage_obj h' q) = (if q = p then 0 else revision (storage_obj h q))" for q
    using new old by simp
  show "rev_step lstore h h'"
    unfolding rev_step_def cur observed_revision_def recs r
    by (auto split: option.splits)
  have "own_records h' lstore"
    using inv nxt unfolding store_inv_def own_records_def recs by (auto intro: less_le_trans)
  moreover have "revisions_bounded h' lstore"
    using inv unfolding store_inv_def revisions_bounded_def recs cur r by simp
  moreover have "revisions_distinct h' lstore"
    using inv unfolding store_inv_def revisions_distinct_def recs r by auto
  ultimately show "store_inv h' lstore" by (simp add: store_inv_def)
qed

lemma inv_created:
  assumes inv: "store_inv h lstore"
    and nw: "unat (currentRev (lstore_obj h lstore)) + 1 < 2 ^ 64"
    and rec: "records (lstore_obj h lstore) cid = None"
    and recs: "records (lstore_obj h' lstore) = (records (lstore_obj h lstore))(cid \<mapsto> next_addr h)"
    and cur: "currentRev (lstore_obj h' lstore) = currentRev (lstore_obj h lstore) + 1"
    and new: "revision (storage_obj h' (next_addr h)) = currentRev (lstore_obj h lstore) + 1"
    and old: "\<And>q. q \<noteq> next_addr h \<Longrightarrow> revision (storage_obj h' q) = revision (storage_obj h q)"
    and nxt: "next_addr h' = Suc (next_addr h)"
  shows "store_inv h' lstore" and "rev_step lstore h h'"
proof -
  let ?c = "currentRev (lstore_obj h lstore)"
  let ?recs = "records (lstore_obj h lstore)"
  let ?a = "next_addr h"
  note w = word_succ_no_wrap [OF nw]
  have le: "?c \<le> ?c + 1" using w(2) by simp
  have below: "q < ?a" if "?recs c = Some q" for c q
    using inv that unfolding store_inv_def own_records_def by blast
  have bnd: "revision (storage_obj h q) \<le> ?c" if "?recs c = Some q" for c q
    using inv that unfolding store_inv_def revisions_bounded_def by blast
  have lt: "revision (storage_obj h q) < ?c + 1" if "?recs c = Some q" for c q
    using bnd [OF that] w(2) by (rule le_less_trans)
  have same: "revision (storage_obj h' q) = revision (storage_obj h q)" if "?recs c = Some q" for c q
    using below [OF that] by (intro old) simp
  show "rev_step lstore h h'"
    unfolding rev_step_def cur observed_revision_def recs
  proof (intro conjI allI le)
    fix c
    show "(case (?recs(cid \<mapsto> ?a)) c of None \<Rightarrow> 0 | Some q \<Rightarrow> revision (storage_obj h' q))
            = (case ?recs c of None \<Rightarrow> 0 | Some q \<Rightarrow> revision (storage_obj h q))
          \<or> (case (?recs(cid \<mapsto> ?a)) c of None \<Rightarrow> 0 | Some q \<Rightarrow> revision (storage_obj h' q)) = 0
          \<or> ?c < (case (?recs(cid \<mapsto> ?a)) c of None \<Rightarrow> 0 | Some q \<Rightarrow> revision (storage_obj h' q))"
    proof (cases "c = cid")
      case True
      then show ?thesis using new w(2) by simp
    next
      case False
      then show ?thesis using same [of c] by (cases "?recs c") simp_all
    qed
  qed
  have "own_records h' lstore"
    unfolding own_records_def recs nxt
  proof (intro conjI allI impI)
    show "inj_on (?recs(cid \<mapsto> ?a)) (dom (?recs(cid \<mapsto> ?a)))"
      using inv below unfolding store_inv_def own_records_def inj_on_def dom_def
      by (auto split: if_splits) (metis less_irrefl)+
    fix c q assume "(?recs(cid \<mapsto> ?a)) c = Some q"
    then show "q < Suc ?a" using below [of c q] by (auto split: if_splits intro: less_SucI)
  qed
  moreover have "revisions_bounded h' lstore"
    unfolding revisions_bounded_def recs cur
  proof (intro allI impI)
    fix c q assume cq: "(?recs(cid \<mapsto> ?a)) c = Some q"
    show "revision (storage_obj h' q) \<le> ?c + 1"
    proof (cases "c = cid")
      case True
      with cq have "q = ?a" by simp
      then show ?thesis by (simp add: new)
    next
      case False
      with cq have "?recs c = Some q" by simp
      with bnd [OF this] same [OF this] le show ?thesis by simp
    qed
  qed
  moreover have "revisions_distinct h' lstore"
    unfolding revisions_distinct_def recs
  proof (intro allI impI)
    fix c c' q q'
    assume a: "(?recs(cid \<mapsto> ?a)) c = Some q \<and> (?recs(cid \<mapsto> ?a)) c' = Some q' \<and> c \<noteq> c'
               \<and> revision (storage_obj h' q) \<noteq> 0"
    then have cq: "(?recs(cid \<mapsto> ?a)) c = Some q" and cq': "(?recs(cid \<mapsto> ?a)) c' = Some q'"
      and ne: "c \<noteq> c'" and nz: "revision (storage_obj h' q) \<noteq> 0"
      by simp_all
    show "revision (storage_obj h' q) \<noteq> revision (storage_obj h' q')"
    proof (cases "c = cid")
      case True
      with ne cq' have o: "?recs c' = Some q'" by simp
      from True cq have "q = ?a" by simp
      with lt [OF o] same [OF o] show ?thesis by (simp add: new)
    next
      case cc: False
      with cq have o: "?recs c = Some q" by simp
      show ?thesis
      proof (cases "c' = cid")
        case True
        with cq' have "q' = ?a" by simp
        with lt [OF o] same [OF o] show ?thesis by (simp add: new)
      next
        case False
        with cq' have o': "?recs c' = Some q'" by simp
        from nz same [OF o] have "revision (storage_obj h q) \<noteq> 0" by simp
        with inv o o' ne have "revision (storage_obj h q) \<noteq> revision (storage_obj h q')"
          unfolding store_inv_def revisions_distinct_def by blast
        then show ?thesis by (simp add: same [OF o] same [OF o'])
      qed
    qed
  qed
  ultimately show "store_inv h' lstore" by (simp add: store_inv_def)
qed

lemma inv_deleted:
  assumes inv: "store_inv h lstore"
    and recs: "\<And>c. records (lstore_obj h' lstore) c = None
                 \<or> records (lstore_obj h' lstore) c = records (lstore_obj h lstore) c"
    and cur: "currentRev (lstore_obj h' lstore) = currentRev (lstore_obj h lstore)"
    and old: "\<And>q. revision (storage_obj h' q) = revision (storage_obj h q)"
    and nxt: "next_addr h \<le> next_addr h'"
  shows "store_inv h' lstore" and "rev_step lstore h h'"
proof -
  let ?recs = "records (lstore_obj h lstore)" and ?recs' = "records (lstore_obj h' lstore)"
  have sub: "?recs c = Some q" if "?recs' c = Some q" for c q
    using recs [of c] that by auto
  have "observed_revision h' lstore c = observed_revision h lstore c
        \<or> observed_revision h' lstore c = 0" for c
    using recs [of c] by (auto simp add: observed_revision_def old split: option.splits)
  then show "rev_step lstore h h'"
    unfolding rev_step_def cur by blast
  have "own_records h' lstore"
    unfolding own_records_def
  proof (intro conjI allI impI)
    show "inj_on ?recs' (dom ?recs')"
      using inv sub unfolding store_inv_def own_records_def inj_on_def dom_def
      by (metis (mono_tags, lifting) mem_Collect_eq not_None_eq)
    fix c q assume "?recs' c = Some q"
    from sub [OF this] inv have "q < next_addr h"
      unfolding store_inv_def own_records_def by blast
    with nxt show "q < next_addr h'" by simp
  qed
  moreover have "revisions_bounded h' lstore"
    using inv sub unfolding store_inv_def revisions_bounded_def cur old by blast
  moreover have "revisions_distinct h' lstore"
    using inv sub unfolding store_inv_def revisions_distinct_def old by blast
  ultimately show "store_inv h' lstore" by (simp add: store_inv_def)
qed
lemma store_frame_refl: "store_frame h h"
  by (simp add: store_frame_def)

lemma store_frame_trans: "store_frame h h1 \<Longrightarrow> store_frame h1 h2 \<Longrightarrow> store_frame h h2"
  by (simp add: store_frame_def)

lemma inv_frame:
  assumes "store_inv h lstore" and "store_frame h h'"
  shows "store_inv h' lstore" and "rev_step lstore h h'"
    and "currentRev (lstore_obj h' lstore) = currentRev (lstore_obj h lstore)"
proof -
  from assms(2) have f: "storage_obj h' = storage_obj h" "lstore_obj h' = lstore_obj h"
    "next_addr h \<le> next_addr h'"
    by (simp_all add: store_frame_def)
  show "store_inv h' lstore"
    by (rule inv_unchanged(1) [OF assms(1)]) (simp_all add: f)
  show "rev_step lstore h h'"
    by (rule inv_unchanged(2) [OF assms(1)]) (simp_all add: f)
  show "currentRev (lstore_obj h' lstore) = currentRev (lstore_obj h lstore)"
    by (simp add: f)
qed

lemma make_bytes_frame: "make_bytes h n = (sl, h') \<Longrightarrow> store_frame h h'"
  by (auto simp: make_bytes_def store_frame_def)

lemma copy_bytes_frame: "store_frame h (copy_bytes h dst src)"
  by (simp add: copy_bytes_def store_frame_def Let_def split: slice.splits)

lemma dup_elements_frame: "dup_elements h es = (ds, h') \<Longrightarrow> store_frame h h'"
proof (induction es arbitrary: h ds h')
  case Nil
  then show ?case by (simp add: store_frame_refl)
next
  case (Cons e es)
  obtain ip h1 where m1: "make_bytes h (len (IP e)) = (ip, h1)" by (cases "make_bytes h (len (IP e))")
  obtain mk h2 where m2: "make_bytes h1 (len (Mask e)) = (mk, h2)"
    by (cases "make_bytes h1 (len (Mask e))")
  let ?h3 = "copy_bytes (copy_bytes h2 ip (IP e)) mk (Mask e)"
  obtain ds' h4 where d: "dup_elements ?h3 es = (ds', h4)" by (cases "dup_elements ?h3 es")
  from Cons.prems m1 m2 d have "h' = h4" by simp
  moreover have "store_frame h ?h3"
    using make_bytes_frame [OF m1] make_bytes_frame [OF m2]
      copy_bytes_frame [of h2 ip "IP e"] copy_bytes_frame [of "copy_bytes h2 ip (IP e)" mk "Mask e"]
    by (blast intro: store_frame_trans)
  ultimately show ?case using Cons.IH [OF d] by (blast intro: store_frame_trans)
qed

lemma duplicateLease_frame: "duplicateLease h l = (d, h') \<Longrightarrow> store_frame h h'"
proof -
  assume a: "duplicateLease h l = (d, h')"
  let ?h1 = "h\<lparr>ipnet_arr := (ipnet_arr h)(next_addr h :=
               replicate (len (Elements l)) \<lparr>IP = NilSlice, Mask = NilSlice\<rparr>),
             next_addr := Suc (next_addr h)\<rparr>"
  obtain ds h2 where d: "dup_elements ?h1 (read_slice (ipnet_arr h) (Elements l)) = (ds, h2)"
    by (cases "dup_elements ?h1 (read_slice (ipnet_arr h) (Elements l))")
  from a d have "h' = h2\<lparr>ipnet_arr := (ipnet_arr h2)(next_addr h := ds)\<rparr>"
    by (simp add: duplicateLease_def Let_def)
  with dup_elements_frame [OF d] show "store_frame h h'"
    by (simp add: store_frame_def)
qed

lemma dup_leases_frame: "dup_leases h ls = (ds, h') \<Longrightarrow> store_frame h h'"
proof (induction ls arbitrary: h ds h')
  case Nil
  then show ?case by (simp add: store_frame_refl)
next
  case (Cons l ls)
  obtain d h1 where d: "duplicateLease h l = (d, h1)" by (cases "duplicateLease h l")
  obtain ds' h2 where r: "dup_leases h1 ls = (ds', h2)" by (cases "dup_leases h1 ls")
  from Cons.prems d r have "h' = h2" by simp
  with duplicateLease_frame [OF d] Cons.IH [OF r] show ?case
    by (blast intro: store_frame_trans)
qed

lemma Lookup_frame:
  assumes "Lookup id h lstore cid = Returns (out, tok, err, h')"
  shows "store_frame h h'"
    and "Value tok = TokenValueV \<lparr>tok_revision = observed_revision h lstore cid, tok_cid = cid\<rparr>"
    and "err = None"
proof -
  have "store_frame h h'
      \<and> Value tok = TokenValueV \<lparr>tok_revision = observed_revision h lstore cid, tok_cid = cid\<rparr>
      \<and> err = None"
  proof (cases "records (lstore_obj h lstore) cid")
    case None
    with assms show ?thesis
      by (auto simp: Lookup_def NewToken_def observed_revision_def store_frame_refl)
  next
    case (Some p)
    let ?st = "storage_obj h p"
    let ?h2 = "h\<lparr>lease_arr := (lease_arr h)(next_addr h := replicate (len (leases ?st)) zero_Lease),
                 next_addr := Suc (next_addr h)\<rparr>"
    obtain ds h3 where d: "dup_leases ?h2 (read_slice (lease_arr h) (leases ?st)) = (ds, h3)"
      by (cases "dup_leases ?h2 (read_slice (lease_arr h) (leases ?st))")
    from assms Some d
    have r: "h' = h3\<lparr>lease_arr := (lease_arr h3)(next_addr h := ds)\<rparr>"
      "tok = NewToken (Some lstore) (TokenValueV \<lparr>tok_revision = revision ?st, tok_cid = cid\<rparr>)"
      "err = None"
      by (simp_all add: Lookup_def Let_def split: if_splits)
    from dup_leases_frame [OF d] r(1) have "store_frame h h'"
      by (simp add: store_frame_def)
    with r(2,3) Some show ?thesis
      by (simp add: NewToken_def observed_revision_def)
  qed
  then show "store_frame h h'"
    and "Value tok = TokenValueV \<lparr>tok_revision = observed_revision h lstore cid, tok_cid = cid\<rparr>"
    and "err = None"
    by simp_all
qed

lemma errors_New_frame: "errors_New h msg = (e, h') \<Longrightarrow> store_frame h h'"
  by (auto simp: errors_New_def store_frame_def)

lemma InvalidateWithError_frame:
  "InvalidateWithError h t e = (err, t', cs, h') \<Longrightarrow> store_frame h h'"
  by (auto simp: InvalidateWithError_def WrapWithInvalidToken_def Let_def store_frame_def
      split: prod.splits if_splits)

text \<open>What \<open>Update\<close> does to the store when nothing else runs.\<close>

lemma Update_found:
  assumes "Update id h lstore cid newLeases token = Returns (err, t', h')"
    and "records (lstore_obj h lstore) cid = Some p"
  shows "store_frame h h'
     \<or> (0 < len newLeases
        \<and> h' = (snd (getRevision h lstore))
             \<lparr>storage_obj := (storage_obj (snd (getRevision h lstore)))
                (p := (storage_obj h p)\<lparr>leases := newLeases,
                                        revision := fst (getRevision h lstore)\<rparr>)\<rparr>)
     \<or> (len newLeases = 0
        \<and> h' = h\<lparr>storage_obj := (storage_obj h)(p := reset (storage_obj h p))\<rparr>)"
proof (cases token)
  case None
  with assms show ?thesis by (simp add: Update_def store_frame_refl)
next
  case (Some tk)
  show ?thesis
  proof (cases "Valid token \<and> IsOwnedBy token (Some lstore)")
    case False
    with assms Some show ?thesis
      by (auto simp: Update_def store_frame_refl split: if_splits prod.splits
          dest: errors_New_frame)
  next
    case ok: True
    show ?thesis
    proof (cases "as_tokenValue (Value tk)")
      case None
      with assms Some ok show ?thesis
        by (auto simp: Update_def split: prod.splits
            dest!: errors_New_frame InvalidateWithError_frame intro: store_frame_trans)
    next
      case tv: (Some tokVal)
      show ?thesis
      proof (cases "tok_cid tokVal = cid")
        case False
        with assms Some ok tv show ?thesis
          by (auto simp: Update_def split: prod.splits dest: errors_New_frame)
      next
        case True
        with assms Some ok tv show ?thesis
          by (auto simp: Update_def Let_def split: prod.splits if_splits
              dest: InvalidateWithError_frame)
      qed
    qed
  qed
qed

lemma Update_absent:
  assumes "Update id h lstore cid newLeases token = Returns (err, t', h')"
    and "records (lstore_obj h lstore) cid = None"
  shows "store_frame h h'
     \<or> h' = (snd (getRevision h lstore))
             \<lparr>storage_obj := (storage_obj (snd (getRevision h lstore)))
                (next_addr h := \<lparr>revision = fst (getRevision h lstore), leases = newLeases,
                                 Mutex_locked = False\<rparr>),
              lstore_obj := (lstore_obj (snd (getRevision h lstore)))
                (lstore := (lstore_obj (snd (getRevision h lstore)) lstore)
                   \<lparr>records := (records (lstore_obj h lstore))(cid \<mapsto> next_addr h)\<rparr>),
              next_addr := Suc (next_addr h)\<rparr>"
proof (cases token)
  case None
  with assms show ?thesis by (simp add: Update_def store_frame_refl)
next
  case (Some tk)
  show ?thesis
  proof (cases "Valid token \<and> IsOwnedBy token (Some lstore)")
    case False
    with assms Some show ?thesis
      by (auto simp: Update_def store_frame_refl split: if_splits prod.splits
          dest: errors_New_frame)
  next
    case ok: True
    show ?thesis
    proof (cases "as_tokenValue (Value tk)")
      case None
      with assms Some ok show ?thesis
        by (auto simp: Update_def split: prod.splits
            dest!: errors_New_frame InvalidateWithError_frame intro: store_frame_trans)
    next
      case tv: (Some tokVal)
      show ?thesis
      proof (cases "tok_cid tokVal = cid")
        case False
        with assms Some ok tv show ?thesis
          by (auto simp: Update_def split: prod.splits dest: errors_New_frame)
      next
        case True
        with assms Some ok tv show ?thesis
          by (auto simp: Update_def Let_def getRevision_eq split: prod.splits if_splits
              dest: InvalidateWithError_frame)
      qed
    qed
  qed
qed
lemma Update_store_inv:
  assumes u: "Update id h lstore cid newLeases token = Returns (err, t', h')"
    and inv: "store_inv h lstore"
    and nw: "unat (currentRev (lstore_obj h lstore)) + 1 < 2 ^ 64"
  shows "store_inv h' lstore \<and> rev_step lstore h h'
     \<and> unat (currentRev (lstore_obj h' lstore)) \<le> unat (currentRev (lstore_obj h lstore)) + 1"
proof -
  let ?c = "currentRev (lstore_obj h lstore)"
  note w = word_succ_no_wrap [OF nw]
  have g: "getRevision h lstore =
      (?c + 1, h\<lparr>lstore_obj := (lstore_obj h)(lstore := (lstore_obj h lstore)\<lparr>currentRev := ?c + 1\<rparr>)\<rparr>)"
    using w(1) by (simp add: getRevision_eq Let_def)
  show ?thesis
  proof (cases "records (lstore_obj h lstore) cid")
    case None
    from Update_absent [OF u None] consider (frame) "store_frame h h'"
      | (created) "h' = (snd (getRevision h lstore))
             \<lparr>storage_obj := (storage_obj (snd (getRevision h lstore)))
                (next_addr h := \<lparr>revision = fst (getRevision h lstore), leases = newLeases,
                                 Mutex_locked = False\<rparr>),
              lstore_obj := (lstore_obj (snd (getRevision h lstore)))
                (lstore := (lstore_obj (snd (getRevision h lstore)) lstore)
                   \<lparr>records := (records (lstore_obj h lstore))(cid \<mapsto> next_addr h)\<rparr>),
              next_addr := Suc (next_addr h)\<rparr>"
      by blast
    then show ?thesis
    proof cases
      case frame
      with inv_frame [OF inv frame] show ?thesis by simp
    next
      case created
      have "store_inv h' lstore"
        by (rule inv_created(1) [OF inv nw None]) (simp_all add: created g)
      moreover have "rev_step lstore h h'"
        by (rule inv_created(2) [OF inv nw None]) (simp_all add: created g)
      moreover have "currentRev (lstore_obj h' lstore) = ?c + 1"
        by (simp add: created g)
      ultimately show ?thesis using w(3) by simp
    qed
  next
    case (Some p)
    from Update_found [OF u Some] consider (frame) "store_frame h h'"
      | (renewed) "h' = (snd (getRevision h lstore))
             \<lparr>storage_obj := (storage_obj (snd (getRevision h lstore)))
                (p := (storage_obj h p)\<lparr>leases := newLeases,
                                        revision := fst (getRevision h lstore)\<rparr>)\<rparr>"
      | (emptied) "h' = h\<lparr>storage_obj := (storage_obj h)(p := reset (storage_obj h p))\<rparr>"
      by blast
    then show ?thesis
    proof cases
      case frame
      with inv_frame [OF inv frame] show ?thesis by simp
    next
      case renewed
      have "store_inv h' lstore"
        by (rule inv_renewed(1) [OF inv nw Some]) (simp_all add: renewed g)
      moreover have "rev_step lstore h h'"
        by (rule inv_renewed(2) [OF inv nw Some]) (simp_all add: renewed g)
      moreover have "currentRev (lstore_obj h' lstore) = ?c + 1"
        by (simp add: renewed g)
      ultimately show ?thesis using w(3) by simp
    next
      case emptied
      have "store_inv h' lstore"
        by (rule inv_emptied(1) [OF inv, where p = p]) (simp_all add: emptied reset_def)
      moreover have "rev_step lstore h h'"
        by (rule inv_emptied(2) [OF inv, where p = p]) (simp_all add: emptied reset_def)
      moreover have "currentRev (lstore_obj h' lstore) = ?c"
        by (simp add: emptied)
      ultimately show ?thesis by simp
    qed
  qed
qed

lemma visit_store_inv:
  assumes inv: "store_inv (mem s) lstore"
    and rec: "records (lstore_obj (mem s) lstore) cid = Some p"
    and nw: "unat (currentRev (lstore_obj (mem s) lstore)) + 1 < 2 ^ 64"
  shows "store_inv (mem (visit cutoff delay lstore cid p s)) lstore"
    and "rev_step lstore (mem s) (mem (visit cutoff delay lstore cid p s))"
proof -
  let ?m = "mem (visit cutoff delay lstore cid p s)"
  note w = word_succ_no_wrap [OF nw]
  have "store_inv ?m lstore \<and> rev_step lstore (mem s) ?m"
  proof (cases rule: visit_mem_cases [of cutoff delay lstore cid p s])
    case same
    with inv show ?thesis by (simp add: rev_step_refl)
  next
    case (renewed kept)
    have "store_inv ?m lstore"
      by (rule inv_renewed(1) [OF inv nw rec]) (simp_all add: renewed w(1))
    moreover have "rev_step lstore (mem s) ?m"
      by (rule inv_renewed(2) [OF inv nw rec]) (simp_all add: renewed w(1))
    ultimately show ?thesis by simp
  next
    case emptied
    have "store_inv ?m lstore"
      by (rule inv_emptied(1) [OF inv, where p = p]) (simp_all add: emptied reset_def)
    moreover have "rev_step lstore (mem s) ?m"
      by (rule inv_emptied(2) [OF inv, where p = p]) (simp_all add: emptied reset_def)
    ultimately show ?thesis by simp
  qed
  then show "store_inv ?m lstore" and "rev_step lstore (mem s) ?m" by simp_all
qed

lemma sweep_store_inv:
  assumes "sweep cutoff sched workAmount lstore order s = Returns s'"
    and "unat (currentRev (lstore_obj (mem s) lstore)) + length order < 2 ^ 64"
    and "store_inv (mem s) lstore"
  shows "store_inv (mem s') lstore \<and> rev_step lstore (mem s) (mem s')"
  using assms
proof (induction order arbitrary: s)
  case Nil
  then show ?case by (simp add: rev_step_refl)
next
  case (Cons cid rest)
  let ?c = "currentRev (lstore_obj (mem s) lstore)"
  show ?case
  proof (cases "records (lstore_obj (mem s) lstore) cid")
    case None
    with Cons.prems(1) have "sweep cutoff sched workAmount lstore rest s = Returns s'" by simp
    from Cons.IH [OF this] Cons.prems(2,3) show ?thesis by simp
  next
    case (Some p)
    from Cons.prems(1) Some have unl: "\<not> Mutex_locked (storage_obj (mem s) p)"
      by (auto simp: Let_def split: if_splits)
    let ?s2 = "visit cutoff (sched cid) lstore cid p s"
    have nw: "unat ?c + 1 < 2 ^ 64" using Cons.prems(2) by simp
    have bnd: "revisions_bounded (mem s) lstore"
      using Cons.prems(3) by (simp add: store_inv_def)
    note vr = visit_revisions [OF nw bnd, where cutoff = cutoff
        and delay = "sched cid" and cid = cid and p = p]
    note vi = visit_store_inv [OF Cons.prems(3) Some nw, where cutoff = cutoff
        and delay = "sched cid"]
    show ?thesis
    proof (cases "revision (storage_obj (mem s) p) \<noteq> 0 \<and> workAmount \<le> cleaned ?s2")
      case True
      with Cons.prems(1) have "s' = ?s2"
        unfolding sweep_Cons_visit [OF Some unl] by (simp split: if_splits)
      with vi show ?thesis by simp
    next
      case False
      with Cons.prems(1) have run: "sweep cutoff sched workAmount lstore rest ?s2 = Returns s'"
        unfolding sweep_Cons_visit [OF Some unl] by (simp split: if_splits)
      have "unat (currentRev (lstore_obj (mem ?s2) lstore)) + length rest < 2 ^ 64"
        using vr(2) Cons.prems(2) by simp
      from Cons.IH [OF run this vi(1)]
      have "store_inv (mem s') lstore" and "rev_step lstore (mem ?s2) (mem s')" by simp_all
      with vi(2) show ?thesis by (blast intro: rev_step_trans)
    qed
  qed
qed

lemma apply_op_store_inv:
  assumes op: "apply_op lstore x h = Returns h'"
    and inv: "store_inv h lstore"
    and nw: "unat (currentRev (lstore_obj h lstore)) + getRevision_calls x < 2 ^ 64"
  shows "store_inv h' lstore \<and> rev_step lstore h h'
     \<and> unat (currentRev (lstore_obj h' lstore))
         \<le> unat (currentRev (lstore_obj h lstore)) + getRevision_calls x"
proof (cases x)
  case (DoLookup c)
  with op obtain out tok err where "Lookup id h lstore c = Returns (out, tok, err, h')"
    by (auto split: outcome.splits)
  from inv_frame [OF inv Lookup_frame(1) [OF this]] show ?thesis by simp
next
  case (DoUpdate c newLeases token)
  with op obtain err t' where u: "Update id h lstore c newLeases token = Returns (err, t', h')"
    by (auto split: outcome.splits)
  from nw DoUpdate have "unat (currentRev (lstore_obj h lstore)) + 1 < 2 ^ 64" by simp
  from Update_store_inv [OF u inv this] DoUpdate show ?thesis by simp
next
  case (DoExpire now sched order workAmount)
  let ?s = "\<lparr>mem = h, cleaned = 0, cleanupCandidates = [], callbacks = [], visited = []\<rparr>"
  from op DoExpire obtain s' where
    sw: "sweep (now - expireGrace) sched workAmount lstore order ?s = Returns s'"
    and h': "h' = mem s'"
    by (auto simp: Expire_def Let_def split: outcome.splits)
  have nw': "unat (currentRev (lstore_obj (mem ?s) lstore)) + length order < 2 ^ 64"
    using nw DoExpire by simp
  have inv': "store_inv (mem ?s) lstore" using inv by simp
  have bnd: "revisions_bounded (mem ?s) lstore" using inv by (simp add: store_inv_def)
  from sweep_store_inv [OF sw nw' inv'] sweep_revisions [OF sw nw' bnd] h' DoExpire
  show ?thesis by simp
next
  case (DoCleanup candidates)
  with op obtain evs where "cleanup_loop lstore candidates h [KeyLock] = Returns (h', evs)"
    by (auto simp: cleanup_def split: outcome.splits)
  note m = cleanup_loop_memory [OF this]
  from m have recs: "\<And>c. records (lstore_obj h' lstore) c = None
        \<or> records (lstore_obj h' lstore) c = records (lstore_obj h lstore) c"
    and cur: "currentRev (lstore_obj h' lstore) = currentRev (lstore_obj h lstore)"
    and old: "\<And>q. revision (storage_obj h' q) = revision (storage_obj h q)"
    and nxt: "next_addr h \<le> next_addr h'"
    by simp_all
  from inv_deleted [OF inv recs cur old nxt] cur DoCleanup show ?thesis by simp
qed

lemma run_store_inv:
  assumes "run lstore ops h = Returns h'"
    and "store_inv h lstore"
    and "unat (currentRev (lstore_obj h lstore)) + sum_list (map getRevision_calls ops) < 2 ^ 64"
  shows "store_inv h' lstore \<and> rev_step lstore h h'"
  using assms
proof (induction ops arbitrary: h)
  case Nil
  then show ?case by (simp add: rev_step_refl)
next
  case (Cons x xs)
  from Cons.prems(1) obtain h1 where
    x: "apply_op lstore x h = Returns h1" and r: "run lstore xs h1 = Returns h'"
    by (auto split: outcome.splits)
  have "unat (currentRev (lstore_obj h lstore)) + getRevision_calls x < 2 ^ 64"
    using Cons.prems(3) by simp
  from apply_op_store_inv [OF x Cons.prems(2) this]
  have i1: "store_inv h1 lstore" and s1: "rev_step lstore h h1"
    and b1: "unat (currentRev (lstore_obj h1 lstore))
         \<le> unat (currentRev (lstore_obj h lstore)) + getRevision_calls x"
    by simp_all
  have "unat (currentRev (lstore_obj h1 lstore)) + sum_list (map getRevision_calls xs) < 2 ^ 64"
    using b1 Cons.prems(3) by simp
  from Cons.IH [OF r i1 this] s1 show ?case by (blast intro: rev_step_trans)
qed

lemma New_store_inv: "store_inv (snd (New h)) (fst (New h))"
  by (simp add: New_def store_inv_def own_records_def revisions_bounded_def
      revisions_distinct_def)

lemma observed_revision_bounded:
  "revisions_bounded h lstore \<Longrightarrow> observed_revision h lstore c \<le> currentRev (lstore_obj h lstore)"
  by (auto simp: revisions_bounded_def observed_revision_def split: option.splits)
lemma Lookup_returns:
  assumes "records (lstore_obj h lstore) cid = Some p"
    and "\<not> Mutex_locked (storage_obj h p)"
  shows "\<exists>out tok h'. Lookup id h lstore cid = Returns (out, tok, None, h')"
  using assms by (simp add: Lookup_def Let_def split: prod.splits)

lemma ex_store_inv: "store_inv ex_store 0"
  by (simp add: store_inv_def ex_store_own ex_store_bounded revisions_distinct_def ex_store_simps)

lemma ex_store_wrapping_inv: "store_inv ex_store_wrapping 0"
  by (simp add: store_inv_def own_records_def revisions_bounded_def revisions_distinct_def
      ex_store_wrapping_simps ex_store_simps)

lemma ex_store_Update:
  assumes "store_frame ex_store h"
  shows "Update id h 0 ex_cid (Slice 2 1 1) (Some (ex_token 5 ex_cid)) =
     Returns (None, Some ((ex_token 5 ex_cid)\<lparr>owner := None\<rparr>),
       h\<lparr>lstore_obj := (lstore_obj ex_store)(0 := \<lparr>records = [ex_cid \<mapsto> 10], currentRev = 6\<rparr>),
         storage_obj := (storage_obj ex_store)
           (10 := \<lparr>revision = 6, leases = Slice 2 1 1, Mutex_locked = False\<rparr>)\<rparr>)"
proof -
  from assms have f: "storage_obj h = storage_obj ex_store" "lstore_obj h = lstore_obj ex_store"
    by (simp_all add: store_frame_def)
  show ?thesis
    by (simp add: Update_def ex_token_def Valid_def IsOwnedBy_def f ex_store_simps Invalidate_def
        getRevision_eq Let_def)
qed

lemma ex_store_wrapping_Update:
  assumes "store_frame ex_store_wrapping h"
  shows "Update id h 0 ex_cid (Slice 2 1 1) (Some (ex_token 5 ex_cid)) =
     Returns (None, Some ((ex_token 5 ex_cid)\<lparr>owner := None\<rparr>),
       h\<lparr>lstore_obj := (lstore_obj ex_store_wrapping)
           (0 := \<lparr>records = [ex_cid \<mapsto> 10], currentRev = 1\<rparr>),
         storage_obj := (storage_obj ex_store)
           (10 := \<lparr>revision = 1, leases = Slice 2 1 1, Mutex_locked = False\<rparr>)\<rparr>)"
proof -
  from assms have f: "storage_obj h = storage_obj ex_store"
    "lstore_obj h = lstore_obj ex_store_wrapping"
    by (simp_all add: store_frame_def ex_store_wrapping_simps)
  show ?thesis
    by (simp add: Update_def ex_token_def Valid_def IsOwnedBy_def f ex_store_simps Invalidate_def
        ex_store_wrapping_simps getRevision_eq Let_def)
qed

lemma ex_ops_wrapping_run:
  "run 0 ex_ops_wrapping ex_store_wrapping =
     Returns (ex_store_wrapping
       \<lparr>lstore_obj := (lstore_obj ex_store_wrapping)
           (0 := \<lparr>records = [ex_cid \<mapsto> 10, ex_cid2 \<mapsto> 11], currentRev = 5\<rparr>),
        storage_obj := (storage_obj ex_store)
           (11 := \<lparr>revision = 5, leases = Slice 2 1 1, Mutex_locked = False\<rparr>),
        next_addr := 12\<rparr>)"
  by (simp add: ex_ops_wrapping_def Update_def ex_token_def Valid_def IsOwnedBy_def
      ex_store_simps Invalidate_def ex_store_wrapping_simps getRevision_eq Let_def ex_cids_differ
      fun_upd_twist)

subsection \<open>The commit of \<open>Update\<close>\<close>



section \<open>The claims\<close>

text \<open>
  Claim C10. \<open>NewToken\<close> called with a nil owner returns the zero \<open>Token\<close>. For every
  token \<open>t\<close> that is nil, zero, or the result of invalidating any token \<open>t0\<close>:
  \<open>Valid t\<close> is false, \<open>IsOwnedBy t s\<close> is false for every \<open>s\<close> (nil included), and
  \<open>Invalidate t\<close> leaves \<open>t\<close> as it is and calls no \<^verbatim>\<open>ReleaseToken\<close>. \<open>Invalidate\<close>
  on a valid token calls \<^verbatim>\<open>ReleaseToken\<close> of its owner exactly once, with that token, and
  clears the owner; a second \<open>Invalidate\<close> changes nothing and calls nothing.
\<close>

theorem token_nil_zero_invalidated:
  "NewToken None v = \<lparr>owner = None, Value = NilValue\<rparr>
   \<and> (t = None \<or> t = Some \<lparr>owner = None, Value = NilValue\<rparr> \<or> t = fst (Invalidate t0)
        \<longrightarrow> \<not> Valid t \<and> (\<forall>s. \<not> IsOwnedBy t s) \<and> Invalidate t = (t, []))
   \<and> (Valid t \<longrightarrow>
        (\<exists>tk p. t = Some tk \<and> owner tk = Some p
           \<and> Invalidate t = (Some (tk\<lparr>owner := None\<rparr>), [(p, tk)])
           \<and> Invalidate (fst (Invalidate t)) = (fst (Invalidate t), [])))"
  by (auto simp: NewToken_def Valid_def IsOwnedBy_def Invalidate_def split: option.splits)

theorem token_nil_zero_invalidated_witness:
  "\<not> Valid (fst (Invalidate (Some \<lparr>owner = Some 7, Value = OtherValue 3\<rparr>)))
   \<and> \<not> IsOwnedBy (fst (Invalidate (Some \<lparr>owner = Some 7, Value = OtherValue 3\<rparr>))) (Some 7)
   \<and> Invalidate (fst (Invalidate (Some \<lparr>owner = Some 7, Value = OtherValue 3\<rparr>)))
       = (Some \<lparr>owner = None, Value = OtherValue 3\<rparr>, [])
   \<and> Valid (Some \<lparr>owner = Some 7, Value = OtherValue 3\<rparr>)
   \<and> Invalidate (Some \<lparr>owner = Some 7, Value = OtherValue 3\<rparr>)
       = (Some \<lparr>owner = None, Value = OtherValue 3\<rparr>, [(7, \<lparr>owner = Some 7, Value = OtherValue 3\<rparr>)])"
  using token_nil_zero_invalidated
    [of "OtherValue 3" "fst (Invalidate (Some \<lparr>owner = Some 7, Value = OtherValue 3\<rparr>))"
        "Some \<lparr>owner = Some 7, Value = OtherValue 3\<rparr>"]
    token_nil_zero_invalidated
    [of "OtherValue 3" "Some \<lparr>owner = Some 7, Value = OtherValue 3\<rparr>" None]
  by (simp add: Valid_def Invalidate_def)

text \<open>
  Claim C9. The error that \<open>Update\<close> returns for a token of another plugin, and the one
  it returns for a token issued for another \<open>ClientID\<close>, are plain errors:
  \<^verbatim>\<open>errors.Is(e, ErrToken)\<close> is false for both, as it is for every error made by
  \<^verbatim>\<open>errors.New\<close>. It is true for \<open>ErrToken\<close>, \<open>ErrAlreadyInvalid\<close> and
  \<open>ErrConcurrentUpdate\<close>, and for the error that \<open>Update\<close> returns for a corrupt token,
  which wraps "Corrupted token".
\<close>

theorem token_error_predicate:
  "(Valid token \<and> \<not> IsOwnedBy token (Some lstore) \<longrightarrow>
      (\<exists>e h'. Update interf h lstore cid newLeases token = Returns (Some e, token, h')
         \<and> e = errorString (Dyn (next_addr h)) ''The token is for another plugin''
         \<and> \<not> errors_Is (Some e) (Some ErrToken)))
   \<and> (token = Some tk \<and> Valid token \<and> IsOwnedBy token (Some lstore)
        \<and> as_tokenValue (Value tk) = Some tokVal \<and> tok_cid tokVal \<noteq> cid \<longrightarrow>
      (\<exists>e h' msg. Update interf h lstore cid newLeases token = Returns (Some e, token, h')
         \<and> e = errorString (Dyn (next_addr h)) msg
         \<and> \<not> errors_Is (Some e) (Some ErrToken)))
   \<and> (\<forall>i msg. \<not> errors_Is (Some (errorString i msg)) (Some ErrToken))
   \<and> errors_Is (Some ErrToken) (Some ErrToken)
   \<and> errors_Is (Some ErrAlreadyInvalid) (Some ErrToken)
   \<and> errors_Is (Some ErrConcurrentUpdate) (Some ErrToken)
   \<and> (token = Some tk \<and> Valid token \<and> IsOwnedBy token (Some lstore)
        \<and> as_tokenValue (Value tk) = None \<longrightarrow>
      (\<exists>e t' h'. Update interf h lstore cid newLeases token = Returns (Some e, t', h')
         \<and> Unwrap e = Some (errorString (Dyn (next_addr h)) ''Corrupted token'')
         \<and> errors_Is (Some e) (Some ErrToken)))"
  by (auto simp: Update_def errors_New_def InvalidateWithError_plain Invalidate_def Valid_def
      errors_Is_ErrToken_errorString errors_Is_ErrToken_TokenError errors_Is_sentinels
      split: option.splits)

theorem token_error_predicate_witness:
  "(\<exists>h'. Update id ex_store 0 ex_cid NilSlice (Some ((ex_token 5 ex_cid)\<lparr>owner := Some 7\<rparr>))
     = Returns (Some (errorString (Dyn 11) ''The token is for another plugin''),
                Some ((ex_token 5 ex_cid)\<lparr>owner := Some 7\<rparr>), h'))
   \<and> \<not> errors_Is (Some (errorString (Dyn 11) ''The token is for another plugin''))
          (Some ErrToken)
   \<and> (\<exists>e h'. Update id ex_store 0 ex_cid NilSlice (Some (ex_token 5 ex_cid2))
                = Returns (Some e, Some (ex_token 5 ex_cid2), h')
           \<and> \<not> errors_Is (Some e) (Some ErrToken))
   \<and> (\<exists>e t' h'. Update id ex_store 0 ex_cid NilSlice (Some \<lparr>owner = Some 0, Value = NilValue\<rparr>)
                = Returns (Some e, t', h')
           \<and> Unwrap e = Some (errorString (Dyn 11) ''Corrupted token'')
           \<and> errors_Is (Some e) (Some ErrToken))"
  using
    token_error_predicate [where token = "Some ((ex_token 5 ex_cid)\<lparr>owner := Some 7\<rparr>)"
      and interf = id and h = ex_store and lstore = 0 and cid = ex_cid and newLeases = NilSlice]
    token_error_predicate [where token = "Some (ex_token 5 ex_cid2)"
      and tk = "ex_token 5 ex_cid2" and tokVal = "\<lparr>tok_revision = 5, tok_cid = ex_cid2\<rparr>"
      and interf = id and h = ex_store and lstore = 0 and cid = ex_cid and newLeases = NilSlice]
    token_error_predicate [where token = "Some \<lparr>owner = Some 0, Value = NilValue\<rparr>"
      and tk = "\<lparr>owner = Some 0, Value = NilValue\<rparr>"
      and interf = id and h = ex_store and lstore = 0 and cid = ex_cid and newLeases = NilSlice]
  by (auto simp: Valid_def IsOwnedBy_def ex_token_def ex_cids_differ ex_store_simps)

text \<open>
  Claim C3. \<open>Update\<close> checks the token in this order. A token that is not valid: the
  error is \<open>ErrAlreadyInvalid\<close> and the token is returned as it was. A valid token that
  this store does not own: the error is a plain "The token is for another plugin" and the
  token is as it was. A valid token of this store whose payload is not a \<open>tokenValue\<close>:
  the token is invalidated and the error is a \<open>TokenError\<close> around "Corrupted token". A
  valid token of this store for another \<open>ClientID\<close>: a plain error, and the token is as
  it was. In all four cases memory differs from before in the allocator only: the store,
  its records and their leases are unchanged.
\<close>

theorem Update_precondition_order:
  "(\<not> Valid token \<longrightarrow>
      Update interf h lstore cid newLeases token = Returns (Some ErrAlreadyInvalid, token, h))
   \<and> (Valid token \<and> \<not> IsOwnedBy token (Some lstore) \<longrightarrow>
      Update interf h lstore cid newLeases token =
        Returns (Some (errorString (Dyn (next_addr h)) ''The token is for another plugin''), token,
                 h\<lparr>next_addr := Suc (next_addr h)\<rparr>))
   \<and> (token = Some tk \<and> Valid token \<and> IsOwnedBy token (Some lstore)
        \<and> as_tokenValue (Value tk) = None \<longrightarrow>
      Update interf h lstore cid newLeases token =
        Returns (Some (TokenError (Dyn (Suc (next_addr h)))
                        (Some (errorString (Dyn (next_addr h)) ''Corrupted token'')) []),
                 Some (tk\<lparr>owner := None\<rparr>),
                 h\<lparr>next_addr := Suc (Suc (next_addr h))\<rparr>)
      \<and> \<not> Valid (Some (tk\<lparr>owner := None\<rparr>)))
   \<and> (token = Some tk \<and> Valid token \<and> IsOwnedBy token (Some lstore)
        \<and> as_tokenValue (Value tk) = Some tokVal \<and> tok_cid tokVal \<noteq> cid \<longrightarrow>
      Update interf h lstore cid newLeases token =
        Returns (Some (errorString (Dyn (next_addr h))
                   ''The token was used for a different client than the one it was issued for''),
                 token, h\<lparr>next_addr := Suc (next_addr h)\<rparr>))"
  by (auto simp: Update_def errors_New_def InvalidateWithError_plain Invalidate_def Valid_def
      split: option.splits)

theorem Update_precondition_order_witness:
  "Update id ex_store 0 ex_cid (Slice 2 1 1) (Some ((ex_token 5 ex_cid)\<lparr>owner := None\<rparr>))
     = Returns (Some ErrAlreadyInvalid, Some ((ex_token 5 ex_cid)\<lparr>owner := None\<rparr>), ex_store)
   \<and> Update id ex_store 0 ex_cid (Slice 2 1 1) (Some ((ex_token 5 ex_cid)\<lparr>owner := Some 7\<rparr>))
     = Returns (Some (errorString (Dyn 11) ''The token is for another plugin''),
                Some ((ex_token 5 ex_cid)\<lparr>owner := Some 7\<rparr>), ex_store\<lparr>next_addr := 12\<rparr>)
   \<and> Update id ex_store 0 ex_cid (Slice 2 1 1) (Some \<lparr>owner = Some 0, Value = OtherValue 3\<rparr>)
     = Returns (Some (TokenError (Dyn 12) (Some (errorString (Dyn 11) ''Corrupted token'')) []),
                Some \<lparr>owner = None, Value = OtherValue 3\<rparr>, ex_store\<lparr>next_addr := 13\<rparr>)
   \<and> Update id ex_store 0 ex_cid (Slice 2 1 1) (Some (ex_token 5 ex_cid2))
     = Returns (Some (errorString (Dyn 11)
                  ''The token was used for a different client than the one it was issued for''),
                Some (ex_token 5 ex_cid2), ex_store\<lparr>next_addr := 12\<rparr>)"
  using
    Update_precondition_order [where token = "Some ((ex_token 5 ex_cid)\<lparr>owner := None\<rparr>)"
      and interf = id and h = ex_store and lstore = 0 and cid = ex_cid
      and newLeases = "Slice 2 1 1"]
    Update_precondition_order [where token = "Some ((ex_token 5 ex_cid)\<lparr>owner := Some 7\<rparr>)"
      and interf = id and h = ex_store and lstore = 0 and cid = ex_cid
      and newLeases = "Slice 2 1 1"]
    Update_precondition_order [where token = "Some \<lparr>owner = Some 0, Value = OtherValue 3\<rparr>"
      and tk = "\<lparr>owner = Some 0, Value = OtherValue 3\<rparr>"
      and interf = id and h = ex_store and lstore = 0 and cid = ex_cid
      and newLeases = "Slice 2 1 1"]
    Update_precondition_order [where token = "Some (ex_token 5 ex_cid2)"
      and tk = "ex_token 5 ex_cid2" and tokVal = "\<lparr>tok_revision = 5, tok_cid = ex_cid2\<rparr>"
      and interf = id and h = ex_store and lstore = 0 and cid = ex_cid
      and newLeases = "Slice 2 1 1"]
  by (simp add: Valid_def IsOwnedBy_def ex_token_def ex_cids_differ ex_store_simps)





text \<open>
  Claim C8. When no record of the map is locked and each key has a record of its own,
  \<open>cleanup\<close> returns. Whenever it returns: every deletion of a key in its trace happens
  while the write lock of the map and the mutex of the key's record are held; a key that
  is deleted is a candidate, its record had revision 0, and the record stays locked; a
  key whose record has a revision other than 0 keeps its record, unchanged, whether it is
  a candidate or not; a key that was not in the map is not in it afterwards; and no
  revision changes.
\<close>

theorem cleanup_removes_only_empty_records:
  "(own_records h lstore \<and> records_unlocked h lstore \<longrightarrow>
      (\<exists>h' evs. cleanup h lstore candidates = Returns (h', evs)))
   \<and> (\<forall>h' evs. cleanup h lstore candidates = Returns (h', evs) \<longrightarrow>
        deletes_guarded (False, {}) evs
        \<and> (\<forall>c p. MapDelete c p \<in> set evs \<longrightarrow>
              c \<in> set candidates \<and> records (lstore_obj h lstore) c = Some p
              \<and> revision (storage_obj h p) = 0)
        \<and> (\<forall>c p. records (lstore_obj h lstore) c = Some p
              \<and> records (lstore_obj h' lstore) c = None \<longrightarrow>
              c \<in> set candidates \<and> revision (storage_obj h p) = 0
              \<and> Mutex_locked (storage_obj h' p))
        \<and> (\<forall>c p. records (lstore_obj h lstore) c = Some p
              \<and> revision (storage_obj h p) \<noteq> 0 \<longrightarrow>
              records (lstore_obj h' lstore) c = Some p
              \<and> storage_obj h' p = storage_obj h p)
        \<and> (\<forall>c. records (lstore_obj h lstore) c = None
              \<longrightarrow> records (lstore_obj h' lstore) c = None)
        \<and> (\<forall>q. revision (storage_obj h' q) = revision (storage_obj h q)))"
proof (intro conjI impI allI)
  assume "own_records h lstore \<and> records_unlocked h lstore"
  then obtain h' evs where "cleanup_loop lstore candidates h [KeyLock] = Returns (h', evs)"
    using cleanup_loop_returns by blast
  then show "\<exists>h' evs. cleanup h lstore candidates = Returns (h', evs)"
    by (simp add: cleanup_def)
next
  fix h' evs
  assume r: "cleanup h lstore candidates = Returns (h', evs)"
  then obtain evs1 where
    loop: "cleanup_loop lstore candidates h [KeyLock] = Returns (h', evs1)"
    and evs: "evs = evs1 @ [KeyUnlock, WgDone]"
    by (auto simp: cleanup_def split: outcome.splits)
  from cleanup_loop_trace [OF loop] obtain new where
    new: "evs1 = [KeyLock] @ new"
      "\<forall>held. deletes_guarded (True, held) new \<and> fst (locks_after (True, held) new)"
      "\<forall>c p. MapDelete c p \<in> set new \<longrightarrow>
         c \<in> set candidates \<and> records (lstore_obj h lstore) c = Some p
         \<and> revision (storage_obj h p) = 0"
    by blast
  note m = cleanup_loop_memory [OF loop]
  show "deletes_guarded (False, {}) evs"
    using new(2) by (cases "locks_after (True, {}) new")
      (simp add: evs new(1) deletes_guarded_append)
  {
    fix c p
    assume "MapDelete c p \<in> set evs"
    then have "MapDelete c p \<in> set new" by (simp add: evs new(1))
    with new(3) show "c \<in> set candidates" "records (lstore_obj h lstore) c = Some p"
      "revision (storage_obj h p) = 0"
      by blast+
  }
  {
    fix c p
    assume "records (lstore_obj h lstore) c = Some p \<and> records (lstore_obj h' lstore) c = None"
    with m show "c \<in> set candidates" "revision (storage_obj h p) = 0"
      "Mutex_locked (storage_obj h' p)"
      by blast+
  }
  {
    fix c p
    assume "records (lstore_obj h lstore) c = Some p \<and> revision (storage_obj h p) \<noteq> 0"
    with m show "records (lstore_obj h' lstore) c = Some p" "storage_obj h' p = storage_obj h p"
      by blast+
  }
  {
    fix c
    assume "records (lstore_obj h lstore) c = None"
    with m show "records (lstore_obj h' lstore) c = None" by metis
  }
  {
    fix q
    from m show "revision (storage_obj h' q) = revision (storage_obj h q)" by blast
  }
qed

theorem cleanup_removes_only_empty_records_witness:
  "\<exists>h'. cleanup ex_store2 0 [ex_cid2, ex_cid, ex_cid2]
          = Returns (h', [KeyLock, RecLock 11, MapDelete ex_cid2 11, RecLock 10, RecUnlock 10,
                          KeyUnlock, WgDone])
        \<and> deletes_guarded (False, {})
            [KeyLock, RecLock 11, MapDelete ex_cid2 11, RecLock 10, RecUnlock 10, KeyUnlock, WgDone]
        \<and> records (lstore_obj h' 0) ex_cid2 = None
        \<and> Mutex_locked (storage_obj h' 11)
        \<and> records (lstore_obj h' 0) ex_cid = Some 10
        \<and> storage_obj h' 10 = storage_obj ex_store2 10"
proof -
  obtain h' evs where c: "cleanup ex_store2 0 [ex_cid2, ex_cid, ex_cid2] = Returns (h', evs)"
    using cleanup_removes_only_empty_records [of ex_store2 0 "[ex_cid2, ex_cid, ex_cid2]"]
      ex_store2_own ex_store2_unlocked
    by blast
  have e: "evs = [KeyLock, RecLock 11, MapDelete ex_cid2 11, RecLock 10, RecUnlock 10,
                  KeyUnlock, WgDone]"
    and d: "records (lstore_obj h' 0) ex_cid2 = None"
    using c
    by (auto simp: cleanup_def ex_store2_simps zero_storage_def ex_cids_differ Let_def
        split: outcome.splits)
  have k: "records (lstore_obj ex_store2 0) ex_cid = Some 10"
      "revision (storage_obj ex_store2 10) \<noteq> 0"
      "records (lstore_obj ex_store2 0) ex_cid2 = Some 11"
    by (simp_all add: ex_store2_simps ex_cids_differ)
  from cleanup_removes_only_empty_records [of ex_store2 0 "[ex_cid2, ex_cid, ex_cid2]"] c k d e
  show ?thesis by blast
qed




text \<open>
  Claim C7 does not hold of the code. The record of \<open>ex_cid\<close> holds three leases, of
  which the first and the third have expired; their callbacks are 1 and 3. When the
  goroutines run at once, callback 1 gets the elements and the expiry of the first lease
  and callback 3 those of the third. When they run after the loop, both read the loop
  variable as the loop left it: callback 3 is called twice, with the elements and the
  expiry of the third lease, and callback 1 is never called. \<open>Expire\<close> counts two
  leases either way.
\<close>

theorem Expire_callback_reads_loop_variable:
  "(\<exists>s'. Expire ex_now ex_prompt [ex_cid] ex_store 0 10 = Returns s'
      \<and> cleaned s' = 2
      \<and> callbacks s' = [Invoke 1 (Slice 3 0 1) (ex_now - 300000000000),
                        Invoke 3 (Slice 5 0 1) (ex_now - 600000000000)])
   \<and> (\<exists>s'. Expire ex_now ex_late [ex_cid] ex_store 0 10 = Returns s'
      \<and> cleaned s' = 2
      \<and> callbacks s' = [Invoke 3 (Slice 5 0 1) (ex_now - 600000000000),
                        Invoke 3 (Slice 5 0 1) (ex_now - 600000000000)])
   \<and> record_leases ex_store 10 = [ex_lease1, ex_lease2, ex_lease3]
   \<and> ExpireAction ex_lease1 = Some 1 \<and> Elements ex_lease1 = Slice 3 0 1
   \<and> ExpireAt ex_lease1 = ex_now - 300000000000
   \<and> ExpireAction ex_lease3 = Some 3 \<and> Elements ex_lease3 = Slice 5 0 1
   \<and> ExpireAt ex_lease3 = ex_now - 600000000000"
  by (simp add: ex_store_Expire visit_def Let_def ex_store_simps ex_store_record_leases
      ex_leases_kept ex_spawned_at invocations_def run_callback_def ex_prompt_def ex_late_def)
     (simp add: ex_lease1_def ex_lease2_def ex_lease3_def run_callback_def Let_def)




text \<open>
  Claim C6, amended. \<open>getRevision\<close> adds 1 to the counter of the store, and once more when
  the sum is 0: it returns the new value of the counter, which is not 0. A \<open>Lookup\<close>
  that returns gives a token with the revision of the key's record, 0 when the key has
  none. A store made by \<open>New\<close> has no record, so that in it every key has a record of its
  own, no revision is beyond the counter, and no two records have the same revision
  other than 0. Take a store of which this holds and let \<open>Lookup\<close>, \<open>Update\<close>,
  \<open>Expire\<close> and \<open>cleanup\<close> run on it one after the other, in any number and order, none
  blocking, where the counter does not wrap around: its value plus the number of calls of
  \<open>getRevision\<close> stays below \<open>2 ^ 64\<close>. Then the same holds of the store afterwards, the
  counter has not gone back, and the revision that a \<open>Lookup\<close> of any key gets
  afterwards is the one it got before, or 0, or a value beyond the counter as it was:
  greater than every revision that a \<open>Lookup\<close> of any key got before.
\<close>

theorem revisions_increase_until_wrap:
  "getRevision h lstore =
     (let c = currentRev (lstore_obj h lstore); r = (if c + 1 = 0 then 1 else c + 1)
      in (r, h\<lparr>lstore_obj := (lstore_obj h)(lstore := (lstore_obj h lstore)\<lparr>currentRev := r\<rparr>)\<rparr>))
   \<and> fst (getRevision h lstore) \<noteq> 0
   \<and> (\<forall>out tok err h1. Lookup id h lstore cid = Returns (out, tok, err, h1) \<longrightarrow>
         Value tok = TokenValueV \<lparr>tok_revision = observed_revision h lstore cid, tok_cid = cid\<rparr>)
   \<and> store_inv (snd (New h0)) (fst (New h0))
   \<and> (store_inv h lstore
        \<and> unat (currentRev (lstore_obj h lstore)) + sum_list (map getRevision_calls ops) < 2 ^ 64
        \<and> run lstore ops h = Returns h' \<longrightarrow>
          store_inv h' lstore
          \<and> currentRev (lstore_obj h lstore) \<le> currentRev (lstore_obj h' lstore)
          \<and> (\<forall>c c'. observed_revision h' lstore c' = observed_revision h lstore c'
                \<or> observed_revision h' lstore c' = 0
                \<or> (currentRev (lstore_obj h lstore) < observed_revision h' lstore c'
                    \<and> observed_revision h lstore c < observed_revision h' lstore c')))"
proof (intro conjI allI impI)
  show "getRevision h lstore =
     (let c = currentRev (lstore_obj h lstore); r = (if c + 1 = 0 then 1 else c + 1)
      in (r, h\<lparr>lstore_obj := (lstore_obj h)(lstore := (lstore_obj h lstore)\<lparr>currentRev := r\<rparr>)\<rparr>))"
    by (rule getRevision_eq)
  show "fst (getRevision h lstore) \<noteq> 0" by (rule getRevision_nonzero)
  show "store_inv (snd (New h0)) (fst (New h0))" by (rule New_store_inv)
next
  fix out tok err h1
  assume "Lookup id h lstore cid = Returns (out, tok, err, h1)"
  then show "Value tok
      = TokenValueV \<lparr>tok_revision = observed_revision h lstore cid, tok_cid = cid\<rparr>"
    by (rule Lookup_frame(2))
next
  assume a: "store_inv h lstore
        \<and> unat (currentRev (lstore_obj h lstore)) + sum_list (map getRevision_calls ops) < 2 ^ 64
        \<and> run lstore ops h = Returns h'"
  then have inv: "store_inv h lstore"
    and nw: "unat (currentRev (lstore_obj h lstore)) + sum_list (map getRevision_calls ops) < 2 ^ 64"
    and r: "run lstore ops h = Returns h'"
    by simp_all
  from run_store_inv [OF r inv nw]
  have inv': "store_inv h' lstore" and step: "rev_step lstore h h'" by simp_all
  show "store_inv h' lstore" by (rule inv')
  show "currentRev (lstore_obj h lstore) \<le> currentRev (lstore_obj h' lstore)"
    using step by (simp add: rev_step_def)
  fix c c'
  have b: "observed_revision h lstore c \<le> currentRev (lstore_obj h lstore)"
    using inv by (simp add: store_inv_def observed_revision_bounded)
  consider "observed_revision h' lstore c' = observed_revision h lstore c'"
    | "observed_revision h' lstore c' = 0"
    | "currentRev (lstore_obj h lstore) < observed_revision h' lstore c'"
    using step unfolding rev_step_def by blast
  then show "observed_revision h' lstore c' = observed_revision h lstore c'
      \<or> observed_revision h' lstore c' = 0
      \<or> (currentRev (lstore_obj h lstore) < observed_revision h' lstore c'
          \<and> observed_revision h lstore c < observed_revision h' lstore c')"
  proof cases
    case 1
    then show ?thesis by simp
  next
    case 2
    then show ?thesis by simp
  next
    case 3
    with b have "observed_revision h lstore c < observed_revision h' lstore c'"
      by (rule le_less_trans)
    with 3 show ?thesis by simp
  qed
qed

theorem revisions_increase_until_wrap_witness:
  "store_inv ex_store 0
   \<and> unat (currentRev (lstore_obj ex_store 0)) + sum_list (map getRevision_calls ex_ops) < 2 ^ 64
   \<and> (\<exists>h'. run 0 ex_ops ex_store = Returns h'
         \<and> store_inv h' 0
         \<and> observed_revision ex_store 0 ex_cid = 5
         \<and> observed_revision h' 0 ex_cid = 6
         \<and> currentRev (lstore_obj h' 0) = 6)"
proof -
  obtain out1 tok1 h1 where l1: "Lookup id ex_store 0 ex_cid = Returns (out1, tok1, None, h1)"
    using Lookup_returns [of ex_store 0 ex_cid 10] by (auto simp: ex_store_simps)
  note f1 = Lookup_frame(1) [OF l1]
  let ?h2 = "h1\<lparr>lstore_obj := (lstore_obj ex_store)
                   (0 := \<lparr>records = [ex_cid \<mapsto> 10], currentRev = 6\<rparr>),
                 storage_obj := (storage_obj ex_store)
                   (10 := \<lparr>revision = 6, leases = Slice 2 1 1, Mutex_locked = False\<rparr>)\<rparr>"
  note u = ex_store_Update [OF f1]
  obtain out2 tok2 h3 where l2: "Lookup id ?h2 0 ex_cid = Returns (out2, tok2, None, h3)"
    using Lookup_returns [of ?h2 0 ex_cid 10] by auto
  from Lookup_frame(1) [OF l2]
  have f3: "storage_obj h3 = storage_obj ?h2" "lstore_obj h3 = lstore_obj ?h2"
    by (simp_all add: store_frame_def)
  have r: "run 0 ex_ops ex_store = Returns h3"
    by (simp only: ex_ops_def run.simps apply_op.simps l1 u l2 outcome.case prod.case)
  have nw: "unat (currentRev (lstore_obj ex_store 0)) + sum_list (map getRevision_calls ex_ops)
      < 2 ^ 64"
    by (simp add: ex_ops_def ex_store_simps)
  have o: "observed_revision ex_store 0 ex_cid = 5" "observed_revision h3 0 ex_cid = 6"
    "currentRev (lstore_obj h3 0) = 6"
    by (simp_all add: observed_revision_def ex_store_simps f3)
  from revisions_increase_until_wrap [of ex_store 0 ex_cid zero_memory ex_ops h3]
    ex_store_inv nw r
  have "store_inv h3 0" by blast
  with ex_store_inv nw r o show ?thesis by blast
qed

theorem revisions_repeat_after_wrap_counterexample:
  "(\<exists>out1 tok1 h1 t' h2 out2 tok2 h3.
      Lookup id ex_store_wrapping 0 ex_cid = Returns (out1, tok1, None, h1)
      \<and> Value tok1 = TokenValueV \<lparr>tok_revision = 5, tok_cid = ex_cid\<rparr>
      \<and> Update id h1 0 ex_cid (Slice 2 1 1) (Some (ex_token 5 ex_cid)) = Returns (None, t', h2)
      \<and> Lookup id h2 0 ex_cid = Returns (out2, tok2, None, h3)
      \<and> Value tok2 = TokenValueV \<lparr>tok_revision = 1, tok_cid = ex_cid\<rparr>)
   \<and> (\<exists>h'. run 0 ex_ops_wrapping ex_store_wrapping = Returns h'
        \<and> store_inv ex_store_wrapping 0
        \<and> observed_revision h' 0 ex_cid = 5
        \<and> observed_revision h' 0 ex_cid2 = 5
        \<and> \<not> revisions_distinct h' 0)"
proof (intro conjI)
  obtain out1 tok1 h1 where
    l1: "Lookup id ex_store_wrapping 0 ex_cid = Returns (out1, tok1, None, h1)"
    using Lookup_returns [of ex_store_wrapping 0 ex_cid 10]
    by (auto simp: ex_store_wrapping_simps ex_store_simps)
  note f1 = Lookup_frame(1) [OF l1]
  have t1: "Value tok1 = TokenValueV \<lparr>tok_revision = 5, tok_cid = ex_cid\<rparr>"
    using Lookup_frame(2) [OF l1]
    by (simp add: observed_revision_def ex_store_wrapping_simps ex_store_simps)
  let ?h2 = "h1\<lparr>lstore_obj := (lstore_obj ex_store_wrapping)
                   (0 := \<lparr>records = [ex_cid \<mapsto> 10], currentRev = 1\<rparr>),
                 storage_obj := (storage_obj ex_store)
                   (10 := \<lparr>revision = 1, leases = Slice 2 1 1, Mutex_locked = False\<rparr>)\<rparr>"
  note u = ex_store_wrapping_Update [OF f1]
  obtain out2 tok2 h3 where l2: "Lookup id ?h2 0 ex_cid = Returns (out2, tok2, None, h3)"
    using Lookup_returns [of ?h2 0 ex_cid 10] by auto
  have t2: "Value tok2 = TokenValueV \<lparr>tok_revision = 1, tok_cid = ex_cid\<rparr>"
    using Lookup_frame(2) [OF l2] by (simp add: observed_revision_def)
  from l1 t1 u l2 t2
  show "\<exists>out1 tok1 h1 t' h2 out2 tok2 h3.
      Lookup id ex_store_wrapping 0 ex_cid = Returns (out1, tok1, None, h1)
      \<and> Value tok1 = TokenValueV \<lparr>tok_revision = 5, tok_cid = ex_cid\<rparr>
      \<and> Update id h1 0 ex_cid (Slice 2 1 1) (Some (ex_token 5 ex_cid)) = Returns (None, t', h2)
      \<and> Lookup id h2 0 ex_cid = Returns (out2, tok2, None, h3)
      \<and> Value tok2 = TokenValueV \<lparr>tok_revision = 1, tok_cid = ex_cid\<rparr>"
    by blast
next
  let ?h' = "ex_store_wrapping
       \<lparr>lstore_obj := (lstore_obj ex_store_wrapping)
           (0 := \<lparr>records = [ex_cid \<mapsto> 10, ex_cid2 \<mapsto> 11], currentRev = 5\<rparr>),
        storage_obj := (storage_obj ex_store)
           (11 := \<lparr>revision = 5, leases = Slice 2 1 1, Mutex_locked = False\<rparr>),
        next_addr := 12\<rparr>"
  have o: "observed_revision ?h' 0 ex_cid = 5" "observed_revision ?h' 0 ex_cid2 = 5"
    by (simp_all add: observed_revision_def ex_store_simps ex_cids_differ)
  have "\<not> revisions_distinct ?h' 0"
    unfolding revisions_distinct_def
    by (simp add: ex_store_simps) (metis ex_cids_differ(1))
  with o ex_ops_wrapping_run ex_store_wrapping_inv
  show "\<exists>h'. run 0 ex_ops_wrapping ex_store_wrapping = Returns h'
        \<and> store_inv ex_store_wrapping 0
        \<and> observed_revision h' 0 ex_cid = 5
        \<and> observed_revision h' 0 ex_cid2 = 5
        \<and> \<not> revisions_distinct h' 0"
    by blast
qed

end
